theory Spec2Isabelle
  imports Main "HOL-Library.Word"
begin

section \<open>The bulk-loading cache of \<open>github/util_propertyguru.go\<close>\<close>

text \<open>
  The file keeps process-wide variables (two response holders, three indices, a mutex and a
  completion flag for the organization's teams, a map of mutexes and a map of completion
  flags for the teams' repositories) and five functions over them. The variables become one
  record that every function takes and returns; a function that does not return normally
  has an outcome of its own.
\<close>

subsection \<open>Data of the API client\<close>

type_synonym int64 = "64 word"

text \<open>
  Modelled from the spec: the types \<open>github.Team\<close>, \<open>github.Repository\<close> and
  \<open>github.Response\<close> of the go-github library are not part of the sources. A team is an
  identifier, a slug and opaque attributes; a repository is a name and opaque attributes;
  a response is opaque. \<open>GetID\<close>, \<open>GetSlug\<close> and \<open>GetName\<close> read the fields.
\<close>

record Team =
  ID :: int64
  Slug :: string
  TeamAttributes :: string

record Repository =
  Name :: string
  RepositoryAttributes :: string

datatype Response = Response nat

definition GetID :: "Team \<Rightarrow> int64" where
  "GetID team = ID team"

definition GetSlug :: "Team \<Rightarrow> string" where
  "GetSlug team = Slug team"

definition GetName :: "Repository \<Rightarrow> string" where
  "GetName repo = Name repo"

text \<open>
  A Go \<open>error\<close> value: \<open>github.ErrorResponse\<close> carrying the status code of its HTTP
  response, or any other error. The client may return either.
\<close>

datatype error = ErrorResponse int | OtherError string

definition StatusNotFound :: int where
  "StatusNotFound = 404"

text \<open>
  Go's \<open>int\<close> has 64 bits on the targets the provider is built for. A page counter
  starts at 1 and grows by one with every request, so it stays far below \<open>2 ^ 63\<close> in
  any run and is an \<open>int\<close> here.
\<close>

record ListOptions =
  Page :: int
  PerPage :: int

text \<open>
  The two listing calls of \<open>client.Teams\<close>. Each returns the page's items, the response
  (a pointer, \<open>None\<close> for nil) and the error (\<open>None\<close> for nil). The context argument
  of the Go functions is only handed on to the client and is left out.
\<close>

record Client =
  ListTeams :: "string \<Rightarrow> ListOptions \<Rightarrow> Team list \<times> Response option \<times> error option"
  ListTeamReposByID ::
    "int64 \<Rightarrow> int64 \<Rightarrow> ListOptions \<Rightarrow> Repository list \<times> Response option \<times> error option"

subsection \<open>The package variables\<close>

text \<open>
  The two structs have the same field names \<open>resp\<close> and \<open>err\<close>; the fields of the second
  carry the prefix \<open>repos_\<close>, those of the first \<open>teams_\<close>.
\<close>

record PGGetAllTeamsResponse =
  teams :: "Team list"
  teams_resp :: "Response option"
  teams_err :: "error option"

record PGGetAllTeamReposResponse =
  repos :: "Repository list"
  repos_resp :: "Response option"
  repos_err :: "error option"

definition pgGithubOrgName :: string where
  "pgGithubOrgName = ''propertyguru''"

definition pgGithubOrgId :: int64 where
  "pgGithubOrgId = 1661612"

datatype Mutex = Unlocked | Locked

text \<open>One request sent to the API client; the state keeps the list of them in order.\<close>

datatype Fetch =
  FetchTeams string ListOptions
  | FetchTeamRepos int64 int64 ListOptions

text \<open>
  \<open>pgMutexInitializeLocalDataTeamRepos\<close> maps a team to a pointer to its own mutex
  (each entry is a fresh \<open>&sync.Mutex{}\<close>, so no two entries share one); a team without
  an entry reads as the nil pointer. \<open>pgFetchLog\<close> is not a variable of the program: it
  records the calls made to the client.
\<close>

record pgState =
  pgGetAllTeamsResponse :: PGGetAllTeamsResponse
  pgGetAllTeamReposResponse :: PGGetAllTeamReposResponse
  pgTeamsByTeamId :: "int64 \<rightharpoonup> Team"
  pgTeamsByTeamSlug :: "string \<rightharpoonup> Team"
  pgReposByTeamIdAndRepoName :: "int64 \<rightharpoonup> (string \<rightharpoonup> Repository)"
  pgMutexInitializeLocalDataTeams :: Mutex
  pgDoneGetAllTeams :: bool
  pgMutexInitializeLocalDataTeamRepos :: "int64 \<rightharpoonup> Mutex"
  pgDoneGetAllTeamRepos :: "int64 \<rightharpoonup> bool"
  pgFetchLog :: "Fetch list"

text \<open>The variables as the package initialises them.\<close>

definition pgInitialState :: pgState where
  "pgInitialState =
     \<lparr>pgGetAllTeamsResponse = \<lparr>teams = [], teams_resp = None, teams_err = None\<rparr>,
      pgGetAllTeamReposResponse = \<lparr>repos = [], repos_resp = None, repos_err = None\<rparr>,
      pgTeamsByTeamId = Map.empty,
      pgTeamsByTeamSlug = Map.empty,
      pgReposByTeamIdAndRepoName = Map.empty,
      pgMutexInitializeLocalDataTeams = Unlocked,
      pgDoneGetAllTeams = False,
      pgMutexInitializeLocalDataTeamRepos = Map.empty,
      pgDoneGetAllTeamRepos = Map.empty,
      pgFetchLog = []\<rparr>"

text \<open>Reading a Go \<open>map[int64]bool\<close>: a missing key reads as \<open>false\<close>.\<close>

definition doneTeamRepos :: "pgState \<Rightarrow> int64 \<Rightarrow> bool" where
  "doneTeamRepos s teamID =
     (case pgDoneGetAllTeamRepos s teamID of None \<Rightarrow> False | Some b \<Rightarrow> b)"

subsection \<open>Outcomes of a call\<close>

text \<open>
  A call returns, panics (a method called on a nil mutex pointer, or an unlock of an
  unlocked mutex), blocks in \<open>Lock\<close> on a mutex that is held (in a run of one call after
  another nobody is left to release it), or never leaves its pagination loop.
\<close>

datatype 'a outcome = Returns 'a | Panics | Blocks | Diverges

text \<open>How a pagination loop is left: by \<open>break\<close>, or by the \<open>return\<close> inside it.\<close>

datatype loop_exit = Break | EarlyReturn

subsection \<open>The organization-teams loader\<close>

text \<open>The body of the \<open>range\<close> loop over the teams of one page.\<close>

definition registerTeam :: "Team \<Rightarrow> pgState \<Rightarrow> pgState" where
  "registerTeam team s =
     s\<lparr>pgTeamsByTeamId := (pgTeamsByTeamId s)(GetID team \<mapsto> team),
       pgTeamsByTeamSlug := (pgTeamsByTeamSlug s)(GetSlug team \<mapsto> team),
       pgMutexInitializeLocalDataTeamRepos :=
         (pgMutexInitializeLocalDataTeamRepos s)(GetID team \<mapsto> Unlocked),
       pgDoneGetAllTeamRepos := (pgDoneGetAllTeamRepos s)(GetID team \<mapsto> False)\<rparr>"

text \<open>One page request: the holder is overwritten with what the client returned.\<close>

definition fetchTeamsPage :: "Client \<Rightarrow> int \<Rightarrow> pgState \<Rightarrow> pgState" where
  "fetchTeamsPage client page s =
     (let opts = \<lparr>Page = page, PerPage = 100\<rparr> in
      case ListTeams client pgGithubOrgName opts of
        (ts, resp, err) \<Rightarrow>
          s\<lparr>pgGetAllTeamsResponse := \<lparr>teams = ts, teams_resp = resp, teams_err = err\<rparr>,
            pgFetchLog := pgFetchLog s @ [FetchTeams pgGithubOrgName opts]\<rparr>)"

text \<open>The \<open>for\<close> loop of \<open>pgInitializeLocalDataTeams\<close>, entered with the page number.\<close>

partial_function (option) teamsLoop ::
  "Client \<Rightarrow> int \<Rightarrow> pgState \<Rightarrow> (loop_exit \<times> pgState) option" where
  "teamsLoop client page s =
     (let s1 = fetchTeamsPage client page s in
      if teams_err (pgGetAllTeamsResponse s1) \<noteq> None then Some (EarlyReturn, s1)
      else
        let s2 = fold registerTeam (teams (pgGetAllTeamsResponse s1)) s1 in
        if int (length (teams (pgGetAllTeamsResponse s2))) < 100 then Some (Break, s2)
        else teamsLoop client (page + 1) s2)"

definition pgInitializeLocalDataTeams ::
  "Client \<Rightarrow> pgState \<Rightarrow> (pgState \<times> error option) outcome" where
  "pgInitializeLocalDataTeams client s =
     (case pgMutexInitializeLocalDataTeams s of
        Locked \<Rightarrow> Blocks
      | Unlocked \<Rightarrow>
          let s1 = s\<lparr>pgMutexInitializeLocalDataTeams := Locked\<rparr> in
          if \<not> pgDoneGetAllTeams s1 then
            (case teamsLoop client 1 s1 of
               None \<Rightarrow> Diverges
             | Some (EarlyReturn, s2) \<Rightarrow> Returns (s2, teams_err (pgGetAllTeamsResponse s2))
             | Some (Break, s2) \<Rightarrow>
                 let s3 = s2\<lparr>pgDoneGetAllTeams := True\<rparr>;
                     s4 = s3\<lparr>pgMutexInitializeLocalDataTeams := Unlocked\<rparr>
                 in Returns (s4, teams_err (pgGetAllTeamsResponse s4)))
          else
            let s4 = s1\<lparr>pgMutexInitializeLocalDataTeams := Unlocked\<rparr>
            in Returns (s4, teams_err (pgGetAllTeamsResponse s4)))"

subsection \<open>The team-repositories loader\<close>

definition fetchTeamReposPage :: "Client \<Rightarrow> int64 \<Rightarrow> int \<Rightarrow> pgState \<Rightarrow> pgState" where
  "fetchTeamReposPage client teamID page s =
     (let opts = \<lparr>Page = page, PerPage = 100\<rparr> in
      case ListTeamReposByID client pgGithubOrgId teamID opts of
        (rs, resp, err) \<Rightarrow>
          s\<lparr>pgGetAllTeamReposResponse := \<lparr>repos = rs, repos_resp = resp, repos_err = err\<rparr>,
            pgFetchLog := pgFetchLog s @ [FetchTeamRepos pgGithubOrgId teamID opts]\<rparr>)"

definition indexRepo ::
  "Repository \<Rightarrow> (string \<rightharpoonup> Repository) \<Rightarrow> (string \<rightharpoonup> Repository)" where
  "indexRepo repo mapRepoNameToRepo = mapRepoNameToRepo(GetName repo \<mapsto> repo)"

text \<open>
  The \<open>for\<close> loop of \<open>pgInitializeLocalDataTeamRepos\<close>, entered with the page number
  and the local map \<open>mapRepoNameToRepo\<close>.
\<close>

partial_function (option) teamReposLoop ::
  "Client \<Rightarrow> int64 \<Rightarrow> int \<Rightarrow> (string \<rightharpoonup> Repository) \<Rightarrow> pgState \<Rightarrow>
     (loop_exit \<times> (string \<rightharpoonup> Repository) \<times> pgState) option" where
  "teamReposLoop client teamID page mapRepoNameToRepo s =
     (let s1 = fetchTeamReposPage client teamID page s in
      if repos_err (pgGetAllTeamReposResponse s1) \<noteq> None
      then Some (EarlyReturn, mapRepoNameToRepo, s1)
      else
        let m = fold indexRepo (repos (pgGetAllTeamReposResponse s1)) mapRepoNameToRepo in
        if int (length (repos (pgGetAllTeamReposResponse s1))) < 100 then Some (Break, m, s1)
        else teamReposLoop client teamID (page + 1) m s1)"

text \<open>\<open>Lock\<close> and \<open>Unlock\<close> through the pointer stored for the team.\<close>

definition lockTeamRepos :: "int64 \<Rightarrow> pgState \<Rightarrow> pgState outcome" where
  "lockTeamRepos teamID s =
     (case pgMutexInitializeLocalDataTeamRepos s teamID of
        None \<Rightarrow> Panics
      | Some Locked \<Rightarrow> Blocks
      | Some Unlocked \<Rightarrow>
          Returns (s\<lparr>pgMutexInitializeLocalDataTeamRepos :=
                      (pgMutexInitializeLocalDataTeamRepos s)(teamID \<mapsto> Locked)\<rparr>))"

definition unlockTeamRepos :: "int64 \<Rightarrow> pgState \<Rightarrow> pgState outcome" where
  "unlockTeamRepos teamID s =
     (case pgMutexInitializeLocalDataTeamRepos s teamID of
        None \<Rightarrow> Panics
      | Some Unlocked \<Rightarrow> Panics
      | Some Locked \<Rightarrow>
          Returns (s\<lparr>pgMutexInitializeLocalDataTeamRepos :=
                      (pgMutexInitializeLocalDataTeamRepos s)(teamID \<mapsto> Unlocked)\<rparr>))"

definition pgInitializeLocalDataTeamRepos ::
  "Client \<Rightarrow> int64 \<Rightarrow> pgState \<Rightarrow> (pgState \<times> error option) outcome" where
  "pgInitializeLocalDataTeamRepos client teamID s =
     (case lockTeamRepos teamID s of
        Panics \<Rightarrow> Panics
      | Blocks \<Rightarrow> Blocks
      | Diverges \<Rightarrow> Diverges
      | Returns s1 \<Rightarrow>
          if \<not> doneTeamRepos s1 teamID then
            (case teamReposLoop client teamID 1 Map.empty s1 of
               None \<Rightarrow> Diverges
             | Some (EarlyReturn, m, s2) \<Rightarrow>
                 Returns (s2, repos_err (pgGetAllTeamReposResponse s2))
             | Some (Break, m, s2) \<Rightarrow>
                 let s3 = s2\<lparr>pgReposByTeamIdAndRepoName :=
                              (pgReposByTeamIdAndRepoName s2)(teamID \<mapsto> m)\<rparr>;
                     s4 = s3\<lparr>pgDoneGetAllTeamRepos :=
                              (pgDoneGetAllTeamRepos s3)(teamID \<mapsto> True)\<rparr>
                 in (case unlockTeamRepos teamID s4 of
                       Returns s5 \<Rightarrow> Returns (s5, repos_err (pgGetAllTeamReposResponse s5))
                     | Panics \<Rightarrow> Panics
                     | Blocks \<Rightarrow> Blocks
                     | Diverges \<Rightarrow> Diverges))
          else
            (case unlockTeamRepos teamID s1 of
               Returns s5 \<Rightarrow> Returns (s5, repos_err (pgGetAllTeamReposResponse s5))
             | Panics \<Rightarrow> Panics
             | Blocks \<Rightarrow> Blocks
             | Diverges \<Rightarrow> Diverges))"

subsection \<open>The lookups\<close>

text \<open>The error a lookup returns when it finds nothing: the load's error, or a 404.\<close>

definition notFoundUnlessError :: "error option \<Rightarrow> error option" where
  "notFoundUnlessError err =
     (if err = None then Some (ErrorResponse StatusNotFound) else err)"

definition pgGetTeamByTeamId ::
  "Client \<Rightarrow> int64 \<Rightarrow> pgState \<Rightarrow>
     (pgState \<times> Team option \<times> Response option \<times> error option) outcome" where
  "pgGetTeamByTeamId client id' s =
     (case pgInitializeLocalDataTeams client s of
        Panics \<Rightarrow> Panics
      | Blocks \<Rightarrow> Blocks
      | Diverges \<Rightarrow> Diverges
      | Returns (s', _) \<Rightarrow>
          (case pgTeamsByTeamId s' id' of
             Some team \<Rightarrow>
               Returns (s', Some team, teams_resp (pgGetAllTeamsResponse s'),
                        teams_err (pgGetAllTeamsResponse s'))
           | None \<Rightarrow>
               Returns (s', None, teams_resp (pgGetAllTeamsResponse s'),
                        notFoundUnlessError (teams_err (pgGetAllTeamsResponse s')))))"

definition pgGetTeamByTeamSlug ::
  "Client \<Rightarrow> string \<Rightarrow> pgState \<Rightarrow>
     (pgState \<times> Team option \<times> Response option \<times> error option) outcome" where
  "pgGetTeamByTeamSlug client slug s =
     (case pgInitializeLocalDataTeams client s of
        Panics \<Rightarrow> Panics
      | Blocks \<Rightarrow> Blocks
      | Diverges \<Rightarrow> Diverges
      | Returns (s', _) \<Rightarrow>
          (case pgTeamsByTeamSlug s' slug of
             Some team \<Rightarrow>
               Returns (s', Some team, teams_resp (pgGetAllTeamsResponse s'),
                        teams_err (pgGetAllTeamsResponse s'))
           | None \<Rightarrow>
               Returns (s', None, teams_resp (pgGetAllTeamsResponse s'),
                        notFoundUnlessError (teams_err (pgGetAllTeamsResponse s')))))"

text \<open>The two nested lookups of \<open>pgGetRepoByTeamIDAndRepoName\<close>.\<close>

definition loadRepo :: "pgState \<Rightarrow> int64 \<Rightarrow> string \<Rightarrow> Repository option" where
  "loadRepo s teamID repoName =
     (case pgReposByTeamIdAndRepoName s teamID of
        None \<Rightarrow> None
      | Some mapRepoNameToRepo \<Rightarrow> mapRepoNameToRepo repoName)"

definition pgGetRepoByTeamIDAndRepoName ::
  "Client \<Rightarrow> int64 \<Rightarrow> string \<Rightarrow> pgState \<Rightarrow>
     (pgState \<times> Repository option \<times> Response option \<times> error option) outcome" where
  "pgGetRepoByTeamIDAndRepoName client teamID repoName s =
     (case pgInitializeLocalDataTeamRepos client teamID s of
        Panics \<Rightarrow> Panics
      | Blocks \<Rightarrow> Blocks
      | Diverges \<Rightarrow> Diverges
      | Returns (s', _) \<Rightarrow>
          (case loadRepo s' teamID repoName of
             Some repo \<Rightarrow>
               Returns (s', Some repo, repos_resp (pgGetAllTeamReposResponse s'),
                        repos_err (pgGetAllTeamReposResponse s'))
           | None \<Rightarrow>
               Returns (s', None, repos_resp (pgGetAllTeamReposResponse s'),
                        notFoundUnlessError (repos_err (pgGetAllTeamReposResponse s')))))"

subsection \<open>Callers running at the same time\<close>

text \<open>
  For what goroutines do to each other, \<open>pgInitializeLocalDataTeamRepos\<close> is cut into
  steps, each a statement of the function taken as atomic; the steps of several callers
  interleave in any order on the one package state. A caller is at one of these places,
  with its local variables \<open>page\<close> and \<open>mapRepoNameToRepo\<close> where they are live:
  \<^item> \<open>AtLock\<close>: line 101, \<open>Lock\<close> on the team's mutex;
  \<^item> \<open>AtCheck\<close>: line 102, the test of the team's flag;
  \<^item> \<open>AtFetch\<close>: lines 106 to 108, the request and the write of the holder;
  \<^item> \<open>AtErrTest\<close>: line 110, the test of the holder's error;
  \<^item> \<open>AtIndex\<close>: lines 114 to 116, the \<open>range\<close> loop over the holder's repositories;
  \<^item> \<open>AtLenTest\<close>: lines 118 to 121, the test of the page's length;
  \<^item> \<open>AtStore\<close>: line 123; \<open>AtSetDone\<close>: line 124; \<open>AtUnlock\<close>: line 126;
  \<^item> \<open>AtReturn\<close>: the \<open>return\<close> of the holder's error, at line 111 or line 127;
  \<^item> \<open>Returned\<close> with the error returned, and \<open>Panicked\<close>.
\<close>

datatype reposPC =
  AtLock
  | AtCheck
  | AtFetch int "string \<rightharpoonup> Repository"
  | AtErrTest int "string \<rightharpoonup> Repository"
  | AtIndex int "string \<rightharpoonup> Repository"
  | AtLenTest int "string \<rightharpoonup> Repository"
  | AtStore "string \<rightharpoonup> Repository"
  | AtSetDone
  | AtUnlock
  | AtReturn
  | Returned "error option"
  | Panicked

text \<open>
  The next step of a caller, or \<open>None\<close> when it has none: it has finished, or it is at
  \<open>Lock\<close> and the mutex is held.
\<close>

definition reposStep ::
  "Client \<Rightarrow> int64 \<Rightarrow> reposPC \<Rightarrow> pgState \<Rightarrow> (reposPC \<times> pgState) option" where
  "reposStep client teamID pc s =
     (case pc of
        AtLock \<Rightarrow>
          (case lockTeamRepos teamID s of
             Returns s1 \<Rightarrow> Some (AtCheck, s1)
           | Panics \<Rightarrow> Some (Panicked, s)
           | Blocks \<Rightarrow> None
           | Diverges \<Rightarrow> None)
      | AtCheck \<Rightarrow>
          if \<not> doneTeamRepos s teamID then Some (AtFetch 1 Map.empty, s)
          else Some (AtUnlock, s)
      | AtFetch page m \<Rightarrow> Some (AtErrTest page m, fetchTeamReposPage client teamID page s)
      | AtErrTest page m \<Rightarrow>
          if repos_err (pgGetAllTeamReposResponse s) \<noteq> None then Some (AtReturn, s)
          else Some (AtIndex page m, s)
      | AtIndex page m \<Rightarrow>
          Some (AtLenTest page (fold indexRepo (repos (pgGetAllTeamReposResponse s)) m), s)
      | AtLenTest page m \<Rightarrow>
          if int (length (repos (pgGetAllTeamReposResponse s))) < 100 then Some (AtStore m, s)
          else Some (AtFetch (page + 1) m, s)
      | AtStore m \<Rightarrow>
          Some (AtSetDone,
                s\<lparr>pgReposByTeamIdAndRepoName :=
                    (pgReposByTeamIdAndRepoName s)(teamID \<mapsto> m)\<rparr>)
      | AtSetDone \<Rightarrow>
          Some (AtUnlock,
                s\<lparr>pgDoneGetAllTeamRepos := (pgDoneGetAllTeamRepos s)(teamID \<mapsto> True)\<rparr>)
      | AtUnlock \<Rightarrow>
          (case unlockTeamRepos teamID s of
             Returns s1 \<Rightarrow> Some (AtReturn, s1)
           | Panics \<Rightarrow> Some (Panicked, s)
           | Blocks \<Rightarrow> None
           | Diverges \<Rightarrow> None)
      | AtReturn \<Rightarrow> Some (Returned (repos_err (pgGetAllTeamReposResponse s)), s)
      | Returned e \<Rightarrow> None
      | Panicked \<Rightarrow> None)"

fun isFinal :: "reposPC \<Rightarrow> bool" where
  "isFinal (Returned e) = True"
| "isFinal Panicked = True"
| "isFinal pc = False"

text \<open>A caller waits when it is at \<open>Lock\<close> and its team's mutex is held.\<close>

definition waitsInLock :: "int64 \<Rightarrow> reposPC \<Rightarrow> pgState \<Rightarrow> bool" where
  "waitsInLock teamID pc s =
     (pc = AtLock \<and> pgMutexInitializeLocalDataTeamRepos s teamID = Some Locked)"

text \<open>One caller alone, and two callers whose steps interleave.\<close>

inductive oneCaller ::
  "Client \<Rightarrow> int64 \<Rightarrow> reposPC \<times> pgState \<Rightarrow> reposPC \<times> pgState \<Rightarrow> bool"
  for client teamID where
  step: "reposStep client teamID pc s = Some (pc', s') \<Longrightarrow>
           oneCaller client teamID (pc, s) (pc', s')"

inductive twoCallers ::
  "Client \<Rightarrow> int64 \<Rightarrow> Client \<Rightarrow> int64 \<Rightarrow>
     reposPC \<times> reposPC \<times> pgState \<Rightarrow> reposPC \<times> reposPC \<times> pgState \<Rightarrow> bool"
  for clientA teamA clientB teamB where
  first: "reposStep clientA teamA pcA s = Some (pcA', s') \<Longrightarrow>
            twoCallers clientA teamA clientB teamB (pcA, pcB, s) (pcA', pcB, s')"
| second: "reposStep clientB teamB pcB s = Some (pcB', s') \<Longrightarrow>
            twoCallers clientA teamA clientB teamB (pcA, pcB, s) (pcA, pcB', s')"

subsection \<open>What one load requests and receives\<close>

text \<open>
  The request the teams loop sends for a page, what the client answers, and the holder
  that answer is stored as. A page on which the loop goes on to the next one has no error
  and at least 100 items.
\<close>

definition teamsPage :: "Client \<Rightarrow> int \<Rightarrow> Team list \<times> Response option \<times> error option" where
  "teamsPage client page = ListTeams client pgGithubOrgName \<lparr>Page = page, PerPage = 100\<rparr>"

definition teamsFetch :: "int \<Rightarrow> Fetch" where
  "teamsFetch page = FetchTeams pgGithubOrgName \<lparr>Page = page, PerPage = 100\<rparr>"

definition holdTeams ::
  "Team list \<times> Response option \<times> error option \<Rightarrow> PGGetAllTeamsResponse" where
  "holdTeams r =
     (case r of (ts, resp, err) \<Rightarrow> \<lparr>teams = ts, teams_resp = resp, teams_err = err\<rparr>)"

definition teamsOfPages :: "Client \<Rightarrow> int \<Rightarrow> int \<Rightarrow> Team list" where
  "teamsOfPages client p n = concat (map (\<lambda>q. fst (teamsPage client q)) [p..n])"

definition continuesTeams :: "Client \<Rightarrow> int \<Rightarrow> bool" where
  "continuesTeams client q =
     (snd (snd (teamsPage client q)) = None \<and> 100 \<le> length (fst (teamsPage client q)))"

text \<open>The same for the repositories of one team.\<close>

definition teamReposPage ::
  "Client \<Rightarrow> int64 \<Rightarrow> int \<Rightarrow> Repository list \<times> Response option \<times> error option" where
  "teamReposPage client teamID page =
     ListTeamReposByID client pgGithubOrgId teamID \<lparr>Page = page, PerPage = 100\<rparr>"

definition teamReposFetch :: "int64 \<Rightarrow> int \<Rightarrow> Fetch" where
  "teamReposFetch teamID page =
     FetchTeamRepos pgGithubOrgId teamID \<lparr>Page = page, PerPage = 100\<rparr>"

definition holdTeamRepos ::
  "Repository list \<times> Response option \<times> error option \<Rightarrow> PGGetAllTeamReposResponse" where
  "holdTeamRepos r =
     (case r of (rs, resp, err) \<Rightarrow> \<lparr>repos = rs, repos_resp = resp, repos_err = err\<rparr>)"

definition reposOfPages :: "Client \<Rightarrow> int64 \<Rightarrow> int \<Rightarrow> int \<Rightarrow> Repository list" where
  "reposOfPages client teamID p n =
     concat (map (\<lambda>q. fst (teamReposPage client teamID q)) [p..n])"

definition continuesTeamRepos :: "Client \<Rightarrow> int64 \<Rightarrow> int \<Rightarrow> bool" where
  "continuesTeamRepos client teamID q =
     (snd (snd (teamReposPage client teamID q)) = None \<and>
      100 \<le> length (fst (teamReposPage client teamID q)))"

text \<open>
  The teams a load fetched: what the client returns on the teams requests that were
  logged between the state before the load and the state after it.
\<close>

definition teamsReturnedTo :: "Client \<Rightarrow> Fetch list \<Rightarrow> Team list" where
  "teamsReturnedTo client fs =
     concat (map (\<lambda>f. case f of
                         FetchTeams org opts \<Rightarrow> fst (ListTeams client org opts)
                       | FetchTeamRepos org teamID opts \<Rightarrow> []) fs)"

definition fetchedTeams :: "Client \<Rightarrow> pgState \<Rightarrow> pgState \<Rightarrow> Team list" where
  "fetchedTeams client s s' =
     teamsReturnedTo client (drop (length (pgFetchLog s)) (pgFetchLog s'))"

subsection \<open>Maps filled from a list\<close>

text \<open>
  A \<open>range\<close> loop of assignments \<open>m[key(x)] = val(x)\<close> over a list, in the order of
  the list.
\<close>

fun indexAll :: "('a \<Rightarrow> 'k) \<Rightarrow> ('a \<Rightarrow> 'v) \<Rightarrow> 'a list \<Rightarrow> ('k \<rightharpoonup> 'v) \<Rightarrow> ('k \<rightharpoonup> 'v)" where
  "indexAll key val [] m = m"
| "indexAll key val (x # xs) m = indexAll key val xs (m(key x \<mapsto> val x))"

subsection \<open>Calls one after another\<close>

text \<open>
  \<open>andThen\<close> runs a second call in the state the first one returned; \<open>resultOf\<close> is what
  a call returned besides the state.
\<close>

definition andThen :: "('s \<times> 'a) outcome \<Rightarrow> ('s \<Rightarrow> 'b outcome) \<Rightarrow> 'b outcome" where
  "andThen r f =
     (case r of Returns (s, _) \<Rightarrow> f s | Panics \<Rightarrow> Panics | Blocks \<Rightarrow> Blocks
      | Diverges \<Rightarrow> Diverges)"

definition resultOf :: "('s \<times> 'a) outcome \<Rightarrow> 'a option" where
  "resultOf r = (case r of Returns (_, a) \<Rightarrow> Some a | _ \<Rightarrow> None)"

text \<open>
  The life of the process as a run of calls, one after another: a call of one of the five
  functions, the state it leaves when it returns, and the state a list of calls leaves
  when each of them returns. A call that panics, blocks or never returns ends the run.
\<close>

datatype pgCall =
  InitializeLocalDataTeams Client
  | InitializeLocalDataTeamRepos Client int64
  | GetTeamByTeamId Client int64
  | GetTeamByTeamSlug Client string
  | GetRepoByTeamIDAndRepoName Client int64 string

definition stateAfter :: "('s \<times> 'a) outcome \<Rightarrow> 's outcome" where
  "stateAfter r =
     (case r of Returns (s, _) \<Rightarrow> Returns s | Panics \<Rightarrow> Panics | Blocks \<Rightarrow> Blocks
      | Diverges \<Rightarrow> Diverges)"

fun doCall :: "pgCall \<Rightarrow> pgState \<Rightarrow> pgState outcome" where
  "doCall (InitializeLocalDataTeams client) s = stateAfter (pgInitializeLocalDataTeams client s)"
| "doCall (InitializeLocalDataTeamRepos client teamID) s =
     stateAfter (pgInitializeLocalDataTeamRepos client teamID s)"
| "doCall (GetTeamByTeamId client id') s = stateAfter (pgGetTeamByTeamId client id' s)"
| "doCall (GetTeamByTeamSlug client slug) s = stateAfter (pgGetTeamByTeamSlug client slug s)"
| "doCall (GetRepoByTeamIDAndRepoName client teamID repoName) s =
     stateAfter (pgGetRepoByTeamIDAndRepoName client teamID repoName s)"

fun doCalls :: "pgCall list \<Rightarrow> pgState \<Rightarrow> pgState outcome" where
  "doCalls [] s = Returns s"
| "doCalls (k # ks) s =
     (case doCall k s of
        Returns s' \<Rightarrow> doCalls ks s'
      | Panics \<Rightarrow> Panics
      | Blocks \<Rightarrow> Blocks
      | Diverges \<Rightarrow> Diverges)"

text \<open>
  The requests of a log that belong to one collection: to the teams of the organization,
  or to the repositories of one team.
\<close>

definition teamsFetches :: "Fetch list \<Rightarrow> Fetch list" where
  "teamsFetches fs =
     filter (\<lambda>f. case f of FetchTeams org opts \<Rightarrow> True
                       | FetchTeamRepos org teamID opts \<Rightarrow> False) fs"

definition teamReposFetches :: "int64 \<Rightarrow> Fetch list \<Rightarrow> Fetch list" where
  "teamReposFetches t fs =
     filter (\<lambda>f. case f of FetchTeams org opts \<Rightarrow> False
                       | FetchTeamRepos org teamID opts \<Rightarrow> teamID = t) fs"

text \<open>
  What holds of the package state whenever no call is running, in a run that starts from
  the initial state: a set teams flag comes with a free teams mutex and a nil stored
  error; as long as the teams load has neither completed nor failed, no team is
  registered; a set repositories flag comes with a free mutex of that team; and a team
  has an index exactly when its flag is set.
\<close>

definition pgInvariant :: "pgState \<Rightarrow> bool" where
  "pgInvariant s =
     ((pgDoneGetAllTeams s \<longrightarrow>
         pgMutexInitializeLocalDataTeams s = Unlocked \<and>
         teams_err (pgGetAllTeamsResponse s) = None) \<and>
      (\<not> pgDoneGetAllTeams s \<and> pgMutexInitializeLocalDataTeams s = Unlocked \<longrightarrow>
         pgMutexInitializeLocalDataTeamRepos s = Map.empty \<and>
         pgDoneGetAllTeamRepos s = Map.empty \<and>
         pgReposByTeamIdAndRepoName s = Map.empty) \<and>
      (\<forall>t. doneTeamRepos s t \<longrightarrow>
         pgMutexInitializeLocalDataTeamRepos s t = Some Unlocked) \<and>
      (\<forall>t. (pgReposByTeamIdAndRepoName s t \<noteq> None) = doneTeamRepos s t))"

subsection \<open>Clients for the examples\<close>

text \<open>A client whose every request fails.\<close>

definition failingClient :: Client where
  "failingClient =
     \<lparr>ListTeams = (\<lambda>org opts. ([], Some (Response 1), Some (OtherError ''teams: 502''))),
      ListTeamReposByID =
        (\<lambda>org teamID opts. ([], Some (Response 2), Some (OtherError ''repos: 502'')))\<rparr>"

text \<open>
  An organization with the two teams 7 and 8 on one page. Team 7 has the one repository
  \<open>api\<close>; the listing of any other team's repositories fails.
\<close>

definition team7 :: Team where
  "team7 = \<lparr>ID = 7, Slug = ''platform'', TeamAttributes = ''''\<rparr>"

definition team8 :: Team where
  "team8 = \<lparr>ID = 8, Slug = ''search'', TeamAttributes = ''''\<rparr>"

definition repoApi :: Repository where
  "repoApi = \<lparr>Name = ''api'', RepositoryAttributes = ''''\<rparr>"

definition twoTeamsClient :: Client where
  "twoTeamsClient =
     \<lparr>ListTeams = (\<lambda>org opts. ([team7, team8], Some (Response 10), None)),
      ListTeamReposByID =
        (\<lambda>org teamID opts.
           if teamID = 7 then ([repoApi], Some (Response 17), None)
           else ([], Some (Response 18), Some (OtherError ''repos: 502'')))\<rparr>"

text \<open>The same organization, where every team's repository listing is one empty page.\<close>

definition noReposClient :: Client where
  "noReposClient =
     \<lparr>ListTeams = (\<lambda>org opts. ([team7, team8], Some (Response 10), None)),
      ListTeamReposByID = (\<lambda>org teamID opts. ([], Some (Response 20), None))\<rparr>"

text \<open>The package state once the teams of this organization have been loaded.\<close>

definition teamsLoadedState :: pgState where
  "teamsLoadedState =
     \<lparr>pgGetAllTeamsResponse =
        \<lparr>teams = [team7, team8], teams_resp = Some (Response 10), teams_err = None\<rparr>,
      pgGetAllTeamReposResponse = \<lparr>repos = [], repos_resp = None, repos_err = None\<rparr>,
      pgTeamsByTeamId = [7 \<mapsto> team7, 8 \<mapsto> team8],
      pgTeamsByTeamSlug = [''platform'' \<mapsto> team7, ''search'' \<mapsto> team8],
      pgReposByTeamIdAndRepoName = Map.empty,
      pgMutexInitializeLocalDataTeams = Unlocked,
      pgDoneGetAllTeams = True,
      pgMutexInitializeLocalDataTeamRepos = [7 \<mapsto> Unlocked, 8 \<mapsto> Unlocked],
      pgDoneGetAllTeamRepos = [7 \<mapsto> False, 8 \<mapsto> False],
      pgFetchLog = [FetchTeams ''propertyguru'' \<lparr>Page = 1, PerPage = 100\<rparr>]\<rparr>"

text \<open>And once the repositories of team 7 have been loaded from \<open>twoTeamsClient\<close>.\<close>

definition reposLoadedState :: pgState where
  "reposLoadedState =
     teamsLoadedState
       \<lparr>pgGetAllTeamReposResponse :=
          \<lparr>repos = [repoApi], repos_resp = Some (Response 17), repos_err = None\<rparr>,
        pgReposByTeamIdAndRepoName := [7 \<mapsto> [''api'' \<mapsto> repoApi]],
        pgDoneGetAllTeamRepos := (pgDoneGetAllTeamRepos teamsLoadedState)(7 \<mapsto> True),
        pgFetchLog :=
          pgFetchLog teamsLoadedState @
          [FetchTeamRepos 1661612 7 \<lparr>Page = 1, PerPage = 100\<rparr>]\<rparr>"

text \<open>
  And once, after that, the load of the repositories of team 8 has failed on its first
  page: the shared holder has the failed page, and the mutex of team 8 is still held.
\<close>

definition team8FailedState :: pgState where
  "team8FailedState =
     reposLoadedState
       \<lparr>pgGetAllTeamReposResponse :=
          \<lparr>repos = [], repos_resp = Some (Response 18),
           repos_err = Some (OtherError ''repos: 502'')\<rparr>,
        pgMutexInitializeLocalDataTeamRepos := [7 \<mapsto> Unlocked, 8 \<mapsto> Locked],
        pgFetchLog :=
          pgFetchLog reposLoadedState @
          [FetchTeamRepos 1661612 8 \<lparr>Page = 1, PerPage = 100\<rparr>]\<rparr>"



text \<open>
  An organization with 102 teams: the first page holds 100 of them, the second the teams
  7 and 8, every further page is empty. \<open>secondPageFailsClient\<close> answers the first page
  with 100 teams whose identifiers and slugs all differ, and fails from the second page
  on.
\<close>

definition hundredTeams :: "Team list" where
  "hundredTeams =
     map (\<lambda>i. \<lparr>ID = of_nat (100 + i), Slug = ''team'', TeamAttributes = ''''\<rparr>) [0..<100]"

definition pagedClient :: Client where
  "pagedClient =
     \<lparr>ListTeams =
        (\<lambda>org opts.
           if Page opts = 1 then (hundredTeams, Some (Response 1), None)
           else if Page opts = 2 then ([team7, team8], Some (Response 2), None)
           else ([], Some (Response 3), None)),
      ListTeamReposByID = (\<lambda>org teamID opts. ([], Some (Response 20), None))\<rparr>"

definition numberedTeams :: "Team list" where
  "numberedTeams =
     map (\<lambda>i. \<lparr>ID = of_nat (100 + i), Slug = replicate (Suc i) CHR ''t'',
               TeamAttributes = ''''\<rparr>) [0..<100]"

definition secondPageFailsClient :: Client where
  "secondPageFailsClient =
     \<lparr>ListTeams =
        (\<lambda>org opts.
           if Page opts = 1 then (numberedTeams, Some (Response 1), None)
           else ([], Some (Response 2), Some (OtherError ''teams: 502''))),
      ListTeamReposByID = (\<lambda>org teamID opts. ([], Some (Response 20), None))\<rparr>"

section \<open>Properties\<close>

subsection \<open>Lookups in a map filled from a list\<close>

lemma indexAll_other:
  "k \<notin> f ` set ts \<Longrightarrow> indexAll f g ts m k = m k"
  by (induction ts arbitrary: m) auto

lemma indexAll_key:
  "k \<in> f ` set ts \<Longrightarrow>
     \<exists>T'\<in>set ts. f T' = k \<and> indexAll f g ts m k = Some (g T')"
proof (induction ts arbitrary: m)
  case Nil
  then show ?case by simp
next
  case (Cons a ts)
  show ?case
  proof (cases "k \<in> f ` set ts")
    case True
    from Cons.IH [OF True, of "m(f a \<mapsto> g a)"] obtain T' where
      "T' \<in> set ts" "f T' = k" "indexAll f g ts (m(f a \<mapsto> g a)) k = Some (g T')"
      by blast
    then show ?thesis
      by (intro bexI [of _ T']) simp_all
  next
    case False
    with Cons.prems have k: "f a = k" by auto
    with False have "indexAll f g (a # ts) m k = Some (g a)"
      by (simp add: indexAll_other)
    with k show ?thesis
      by (intro bexI [of _ a]) simp_all
  qed
qed

lemma indexAll_mem:
  "T \<in> set ts \<Longrightarrow>
     \<exists>T'\<in>set ts. f T' = f T \<and> indexAll f g ts m (f T) = Some (g T')"
  by (rule indexAll_key) simp

lemma indexAll_distinct:
  assumes "distinct (map f ts)" and "T \<in> set ts"
  shows "indexAll f g ts m (f T) = Some (g T)"
proof -
  from indexAll_mem [OF assms(2), of f g m] obtain T' where
    T': "T' \<in> set ts" "f T' = f T" "indexAll f g ts m (f T) = Some (g T')"
    by blast
  from assms(1) have "inj_on f (set ts)" by (simp add: distinct_map)
  with T'(1,2) assms(2) have "T' = T" by (auto dest: inj_onD)
  with T'(3) show ?thesis by simp
qed

lemma indexAll_dom:
  "dom (indexAll f g ts m) = dom m \<union> f ` set ts"
  by (induction ts arbitrary: m) auto

lemma indexAll_Some:
  "indexAll f g ts m k = Some v \<Longrightarrow> m k = Some v \<or> v \<in> g ` set ts"
proof (induction ts arbitrary: m)
  case Nil
  then show ?case by simp
next
  case (Cons a ts)
  from Cons.prems have "indexAll f g ts (m(f a \<mapsto> g a)) k = Some v"
    by simp
  from Cons.IH [OF this] show ?case
    by (auto split: if_splits)
qed

lemma indexAll_ran:
  assumes "distinct (map f ts)"
  shows "ran (indexAll f (\<lambda>t. t) ts Map.empty) = set ts"
proof
  show "ran (indexAll f (\<lambda>t. t) ts Map.empty) \<subseteq> set ts"
    using indexAll_Some [of f "\<lambda>t. t" ts Map.empty] by (auto simp: ran_def)
  show "set ts \<subseteq> ran (indexAll f (\<lambda>t. t) ts Map.empty)"
    using indexAll_distinct [OF assms, of _ "\<lambda>t. t" Map.empty] by (auto simp: ran_def)
qed

lemma fold_indexRepo: "fold indexRepo rs m = indexAll GetName (\<lambda>r. r) rs m"
  by (induction rs arbitrary: m) (simp_all add: indexRepo_def)

lemma indexAll_append:
  "indexAll f g (xs @ ys) m = indexAll f g ys (indexAll f g xs m)"
  by (induction xs arbitrary: m) simp_all

subsection \<open>The pagination loop over the teams\<close>

lemma fetchTeamsPage_eq:
  "fetchTeamsPage c p s =
     s\<lparr>pgGetAllTeamsResponse := holdTeams (teamsPage c p),
       pgFetchLog := pgFetchLog s @ [teamsFetch p]\<rparr>"
  by (simp add: fetchTeamsPage_def holdTeams_def teamsPage_def teamsFetch_def
      split: prod.splits)

lemma registerTeams_eq:
  "fold registerTeam ts s =
     s\<lparr>pgTeamsByTeamId := indexAll GetID (\<lambda>t. t) ts (pgTeamsByTeamId s),
       pgTeamsByTeamSlug := indexAll GetSlug (\<lambda>t. t) ts (pgTeamsByTeamSlug s),
       pgMutexInitializeLocalDataTeamRepos :=
         indexAll GetID (\<lambda>t. Unlocked) ts (pgMutexInitializeLocalDataTeamRepos s),
       pgDoneGetAllTeamRepos :=
         indexAll GetID (\<lambda>t. False) ts (pgDoneGetAllTeamRepos s)\<rparr>"
  by (induction ts arbitrary: s) (simp_all add: registerTeam_def)

lemma holdTeams_sel [simp]:
  "teams (holdTeams r) = fst r"
  "teams_resp (holdTeams r) = fst (snd r)"
  "teams_err (holdTeams r) = snd (snd r)"
  by (simp_all add: holdTeams_def split: prod.splits)

lemma teamsOfPages_rec:
  "p \<le> n \<Longrightarrow> teamsOfPages c p n = fst (teamsPage c p) @ teamsOfPages c (p + 1) n"
  by (simp add: teamsOfPages_def upto_rec1)

lemma teamsOfPages_single [simp]: "teamsOfPages c n n = fst (teamsPage c n)"
  by (simp add: teamsOfPages_def)

lemma teamsOfPages_empty [simp]: "n < p \<Longrightarrow> teamsOfPages c p n = []"
  by (simp add: teamsOfPages_def)

text \<open>
  The loop entered at page \<open>p\<close>, when the pages from \<open>p\<close> up to \<open>n\<close> make it go on and
  page \<open>n\<close> is short and without error: it leaves by \<open>break\<close> after the requests for
  \<open>p, \<dots>, n\<close>, with every team of these pages registered.
\<close>

lemma teamsLoop_Break:
  assumes "p \<le> n" and "\<forall>q. p \<le> q \<and> q < n \<longrightarrow> continuesTeams c q"
    and "snd (snd (teamsPage c n)) = None" and "length (fst (teamsPage c n)) < 100"
  shows "teamsLoop c p s =
     Some (Break, (fold registerTeam (teamsOfPages c p n) s)
       \<lparr>pgGetAllTeamsResponse := holdTeams (teamsPage c n),
        pgFetchLog := pgFetchLog s @ map teamsFetch [p..n]\<rparr>)"
  using assms
proof (induction "nat (n - p)" arbitrary: p s)
  case 0
  then have "p = n" by simp
  with 0 show ?case
    by (subst teamsLoop.simps) (simp add: fetchTeamsPage_eq registerTeams_eq)
next
  case (Suc k)
  then have lt: "p < n" by linarith
  with Suc.prems have cont: "continuesTeams c p" by simp
  have step: "teamsLoop c p s =
      teamsLoop c (p + 1) (fold registerTeam (fst (teamsPage c p)) (fetchTeamsPage c p s))"
    using cont
    by (subst teamsLoop.simps)
       (simp add: fetchTeamsPage_eq registerTeams_eq continuesTeams_def)
  have ih: "teamsLoop c (p + 1) s' =
     Some (Break, (fold registerTeam (teamsOfPages c (p + 1) n) s')
       \<lparr>pgGetAllTeamsResponse := holdTeams (teamsPage c n),
        pgFetchLog := pgFetchLog s' @ map teamsFetch [p + 1..n]\<rparr>)" for s'
    using Suc.hyps(2) Suc.prems lt by (intro Suc.hyps(1)) auto
  show ?case
    using lt
    by (simp add: step ih teamsOfPages_rec upto_rec1 fetchTeamsPage_eq registerTeams_eq)
qed

text \<open>
  The same entry, when page \<open>n\<close> comes with an error: the loop leaves by \<open>return\<close>,
  with the teams of the pages before \<open>n\<close> registered.
\<close>

lemma teamsLoop_EarlyReturn:
  assumes "p \<le> n" and "\<forall>q. p \<le> q \<and> q < n \<longrightarrow> continuesTeams c q"
    and "snd (snd (teamsPage c n)) \<noteq> None"
  shows "teamsLoop c p s =
     Some (EarlyReturn, (fold registerTeam (teamsOfPages c p (n - 1)) s)
       \<lparr>pgGetAllTeamsResponse := holdTeams (teamsPage c n),
        pgFetchLog := pgFetchLog s @ map teamsFetch [p..n]\<rparr>)"
  using assms
proof (induction "nat (n - p)" arbitrary: p s)
  case 0
  then have "p = n" by simp
  with 0 show ?case
    by (subst teamsLoop.simps) (simp add: fetchTeamsPage_eq)
next
  case (Suc k)
  then have lt: "p < n" by linarith
  with Suc.prems have cont: "continuesTeams c p" by simp
  have step: "teamsLoop c p s =
      teamsLoop c (p + 1) (fold registerTeam (fst (teamsPage c p)) (fetchTeamsPage c p s))"
    using cont
    by (subst teamsLoop.simps)
       (simp add: fetchTeamsPage_eq registerTeams_eq continuesTeams_def)
  have ih: "teamsLoop c (p + 1) s' =
     Some (EarlyReturn, (fold registerTeam (teamsOfPages c (p + 1) (n - 1)) s')
       \<lparr>pgGetAllTeamsResponse := holdTeams (teamsPage c n),
        pgFetchLog := pgFetchLog s' @ map teamsFetch [p + 1..n]\<rparr>)" for s'
    using Suc.hyps(2) Suc.prems lt by (intro Suc.hyps(1)) auto
  show ?case
    using lt
    by (simp add: step ih teamsOfPages_rec upto_rec1 fetchTeamsPage_eq registerTeams_eq)
qed

text \<open>
  Conversely, a loop that is left was stopped by some page: a first one that has an error
  or fewer than 100 items.
\<close>

lemma teamsLoop_body_continues:
  assumes "continuesTeams c p"
  shows "(let s1 = fetchTeamsPage c p s in
      if teams_err (pgGetAllTeamsResponse s1) \<noteq> None then Some (EarlyReturn, s1)
      else
        let s2 = fold registerTeam (teams (pgGetAllTeamsResponse s1)) s1 in
        if int (length (teams (pgGetAllTeamsResponse s2))) < 100 then Some (Break, s2)
        else f c (p + 1) s2)
     = f c (p + 1) (fold registerTeam (fst (teamsPage c p)) (fetchTeamsPage c p s))"
  using assms by (simp add: fetchTeamsPage_eq registerTeams_eq continuesTeams_def)

lemma teamsLoop_stops:
  assumes "teamsLoop c0 p0 s0 = Some y0"
  shows "\<exists>n\<ge>p0. (\<forall>q. p0 \<le> q \<and> q < n \<longrightarrow> continuesTeams c0 q) \<and> \<not> continuesTeams c0 n"
proof (rule teamsLoop.raw_induct
    [where P = "\<lambda>c p s y. \<exists>n\<ge>p. (\<forall>q. p \<le> q \<and> q < n \<longrightarrow> continuesTeams c q) \<and> \<not> continuesTeams c n",
     OF _ assms], goal_cases)
  case (1 loop c p s y)
  show ?case
  proof (cases "continuesTeams c p")
    case False
    have "\<forall>q. p \<le> q \<and> q < p \<longrightarrow> continuesTeams c q"
    proof (intro allI impI)
      fix q assume "p \<le> q \<and> q < p"
      then have False by linarith
      then show "continuesTeams c q" ..
    qed
    with False have "p \<le> p \<and> (\<forall>q. p \<le> q \<and> q < p \<longrightarrow> continuesTeams c q) \<and> \<not> continuesTeams c p"
      by blast
    then show ?thesis by (rule exI)
  next
    case True
    have "loop c (p + 1) (fold registerTeam (fst (teamsPage c p)) (fetchTeamsPage c p s)) = Some y"
      using 1(2) by (simp only: teamsLoop_body_continues [OF True])
    from 1(1) [OF this] obtain n where n: "p + 1 \<le> n"
      "\<forall>q. p + 1 \<le> q \<and> q < n \<longrightarrow> continuesTeams c q" "\<not> continuesTeams c n"
      by blast
    have "\<forall>q. p \<le> q \<and> q < n \<longrightarrow> continuesTeams c q"
    proof (intro allI impI)
      fix q assume "p \<le> q \<and> q < n"
      then have "q = p \<or> (p + 1 \<le> q \<and> q < n)" by linarith
      with True n(2) show "continuesTeams c q" by blast
    qed
    moreover have "p \<le> n" using n(1) by linarith
    ultimately have "p \<le> n \<and> (\<forall>q. p \<le> q \<and> q < n \<longrightarrow> continuesTeams c q) \<and> \<not> continuesTeams c n"
      using n(3) by blast
    then show ?thesis by (rule exI)
  qed
qed

subsection \<open>The pagination loop over a team's repositories\<close>

lemma fetchTeamReposPage_eq:
  "fetchTeamReposPage c t p s =
     s\<lparr>pgGetAllTeamReposResponse := holdTeamRepos (teamReposPage c t p),
       pgFetchLog := pgFetchLog s @ [teamReposFetch t p]\<rparr>"
  by (simp add: fetchTeamReposPage_def holdTeamRepos_def teamReposPage_def teamReposFetch_def
      split: prod.splits)

lemma holdTeamRepos_sel [simp]:
  "repos (holdTeamRepos r) = fst r"
  "repos_resp (holdTeamRepos r) = fst (snd r)"
  "repos_err (holdTeamRepos r) = snd (snd r)"
  by (simp_all add: holdTeamRepos_def split: prod.splits)

lemma reposOfPages_rec:
  "p \<le> n \<Longrightarrow>
     reposOfPages c t p n = fst (teamReposPage c t p) @ reposOfPages c t (p + 1) n"
  by (simp add: reposOfPages_def upto_rec1)

lemma reposOfPages_single [simp]: "reposOfPages c t n n = fst (teamReposPage c t n)"
  by (simp add: reposOfPages_def)

lemma reposOfPages_empty [simp]: "n < p \<Longrightarrow> reposOfPages c t p n = []"
  by (simp add: reposOfPages_def)

lemma teamReposLoop_body_continues:
  assumes "continuesTeamRepos c t p"
  shows "(let s1 = fetchTeamReposPage c t p s in
      if repos_err (pgGetAllTeamReposResponse s1) \<noteq> None
      then Some (EarlyReturn, m, s1)
      else
        let m' = fold indexRepo (repos (pgGetAllTeamReposResponse s1)) m in
        if int (length (repos (pgGetAllTeamReposResponse s1))) < 100 then Some (Break, m', s1)
        else f c t (p + 1) m' s1)
     = f c t (p + 1) (fold indexRepo (fst (teamReposPage c t p)) m) (fetchTeamReposPage c t p s)"
  using assms by (simp add: fetchTeamReposPage_eq continuesTeamRepos_def)

lemma teamReposLoop_Break:
  assumes "p \<le> n" and "\<forall>q. p \<le> q \<and> q < n \<longrightarrow> continuesTeamRepos c t q"
    and "snd (snd (teamReposPage c t n)) = None"
    and "length (fst (teamReposPage c t n)) < 100"
  shows "teamReposLoop c t p m s =
     Some (Break, fold indexRepo (reposOfPages c t p n) m,
       s\<lparr>pgGetAllTeamReposResponse := holdTeamRepos (teamReposPage c t n),
         pgFetchLog := pgFetchLog s @ map (teamReposFetch t) [p..n]\<rparr>)"
  using assms
proof (induction "nat (n - p)" arbitrary: p m s)
  case 0
  then have "p = n" by simp
  with 0 show ?case
    by (subst teamReposLoop.simps) (simp add: fetchTeamReposPage_eq)
next
  case (Suc k)
  then have lt: "p < n" by linarith
  with Suc.prems have cont: "continuesTeamRepos c t p" by simp
  have step: "teamReposLoop c t p m s =
      teamReposLoop c t (p + 1) (fold indexRepo (fst (teamReposPage c t p)) m)
        (fetchTeamReposPage c t p s)"
    by (subst teamReposLoop.simps) (simp only: teamReposLoop_body_continues [OF cont])
  have ih: "teamReposLoop c t (p + 1) m' s' =
     Some (Break, fold indexRepo (reposOfPages c t (p + 1) n) m',
       s'\<lparr>pgGetAllTeamReposResponse := holdTeamRepos (teamReposPage c t n),
          pgFetchLog := pgFetchLog s' @ map (teamReposFetch t) [p + 1..n]\<rparr>)" for m' s'
    using Suc.hyps(2) Suc.prems lt by (intro Suc.hyps(1)) auto
  show ?case
    using lt by (simp add: step ih reposOfPages_rec upto_rec1 fetchTeamReposPage_eq)
qed

lemma teamReposLoop_EarlyReturn:
  assumes "p \<le> n" and "\<forall>q. p \<le> q \<and> q < n \<longrightarrow> continuesTeamRepos c t q"
    and "snd (snd (teamReposPage c t n)) \<noteq> None"
  shows "teamReposLoop c t p m s =
     Some (EarlyReturn, fold indexRepo (reposOfPages c t p (n - 1)) m,
       s\<lparr>pgGetAllTeamReposResponse := holdTeamRepos (teamReposPage c t n),
         pgFetchLog := pgFetchLog s @ map (teamReposFetch t) [p..n]\<rparr>)"
  using assms
proof (induction "nat (n - p)" arbitrary: p m s)
  case 0
  then have "p = n" by simp
  with 0 show ?case
    by (subst teamReposLoop.simps) (simp add: fetchTeamReposPage_eq)
next
  case (Suc k)
  then have lt: "p < n" by linarith
  with Suc.prems have cont: "continuesTeamRepos c t p" by simp
  have step: "teamReposLoop c t p m s =
      teamReposLoop c t (p + 1) (fold indexRepo (fst (teamReposPage c t p)) m)
        (fetchTeamReposPage c t p s)"
    by (subst teamReposLoop.simps) (simp only: teamReposLoop_body_continues [OF cont])
  have ih: "teamReposLoop c t (p + 1) m' s' =
     Some (EarlyReturn, fold indexRepo (reposOfPages c t (p + 1) (n - 1)) m',
       s'\<lparr>pgGetAllTeamReposResponse := holdTeamRepos (teamReposPage c t n),
          pgFetchLog := pgFetchLog s' @ map (teamReposFetch t) [p + 1..n]\<rparr>)" for m' s'
    using Suc.hyps(2) Suc.prems lt by (intro Suc.hyps(1)) auto
  show ?case
    using lt by (simp add: step ih reposOfPages_rec upto_rec1 fetchTeamReposPage_eq)
qed

lemma teamReposLoop_stops:
  assumes "teamReposLoop c0 t0 p0 m0 s0 = Some y0"
  shows "\<exists>n\<ge>p0. (\<forall>q. p0 \<le> q \<and> q < n \<longrightarrow> continuesTeamRepos c0 t0 q) \<and>
           \<not> continuesTeamRepos c0 t0 n"
proof (rule teamReposLoop.raw_induct
    [where P = "\<lambda>c t p m s y. \<exists>n\<ge>p. (\<forall>q. p \<le> q \<and> q < n \<longrightarrow> continuesTeamRepos c t q) \<and>
                  \<not> continuesTeamRepos c t n",
     OF _ assms], goal_cases)
  case (1 loop c t p m s y)
  show ?case
  proof (cases "continuesTeamRepos c t p")
    case False
    have "\<forall>q. p \<le> q \<and> q < p \<longrightarrow> continuesTeamRepos c t q"
    proof (intro allI impI)
      fix q assume "p \<le> q \<and> q < p"
      then have False by linarith
      then show "continuesTeamRepos c t q" ..
    qed
    with False have "p \<le> p \<and> (\<forall>q. p \<le> q \<and> q < p \<longrightarrow> continuesTeamRepos c t q) \<and>
        \<not> continuesTeamRepos c t p"
      by blast
    then show ?thesis by (rule exI)
  next
    case True
    have "loop c t (p + 1) (fold indexRepo (fst (teamReposPage c t p)) m)
        (fetchTeamReposPage c t p s) = Some y"
      using 1(2) by (simp only: teamReposLoop_body_continues [OF True])
    from 1(1) [OF this] obtain n where n: "p + 1 \<le> n"
      "\<forall>q. p + 1 \<le> q \<and> q < n \<longrightarrow> continuesTeamRepos c t q" "\<not> continuesTeamRepos c t n"
      by blast
    have "\<forall>q. p \<le> q \<and> q < n \<longrightarrow> continuesTeamRepos c t q"
    proof (intro allI impI)
      fix q assume "p \<le> q \<and> q < n"
      then have "q = p \<or> (p + 1 \<le> q \<and> q < n)" by linarith
      with True n(2) show "continuesTeamRepos c t q" by blast
    qed
    moreover have "p \<le> n" using n(1) by linarith
    ultimately have "p \<le> n \<and> (\<forall>q. p \<le> q \<and> q < n \<longrightarrow> continuesTeamRepos c t q) \<and>
        \<not> continuesTeamRepos c t n"
      using n(3) by blast
    then show ?thesis by (rule exI)
  qed
qed

subsection \<open>The teams loader as a whole\<close>

lemma pgInitializeLocalDataTeams_locked:
  "pgMutexInitializeLocalDataTeams s = Locked \<Longrightarrow> pgInitializeLocalDataTeams c s = Blocks"
  by (simp add: pgInitializeLocalDataTeams_def)

lemma pgInitializeLocalDataTeams_done:
  assumes "pgMutexInitializeLocalDataTeams s = Unlocked" and "pgDoneGetAllTeams s"
  shows "pgInitializeLocalDataTeams c s = Returns (s, teams_err (pgGetAllTeamsResponse s))"
proof -
  have "s\<lparr>pgMutexInitializeLocalDataTeams := Unlocked\<rparr> = s"
    using assms(1) by simp
  with assms show ?thesis
    by (simp add: pgInitializeLocalDataTeams_def)
qed

lemma pgInitializeLocalDataTeams_succeeds:
  assumes "pgMutexInitializeLocalDataTeams s = Unlocked" and "\<not> pgDoneGetAllTeams s"
    and "1 \<le> n" and "\<forall>q. 1 \<le> q \<and> q < n \<longrightarrow> continuesTeams c q"
    and "snd (snd (teamsPage c n)) = None" and "length (fst (teamsPage c n)) < 100"
  shows "pgInitializeLocalDataTeams c s =
     Returns ((fold registerTeam (teamsOfPages c 1 n) s)
       \<lparr>pgGetAllTeamsResponse := holdTeams (teamsPage c n),
        pgFetchLog := pgFetchLog s @ map teamsFetch [1..n],
        pgDoneGetAllTeams := True\<rparr>, None)"
proof -
  have "s\<lparr>pgMutexInitializeLocalDataTeams := Unlocked\<rparr> = s"
    using assms(1) by simp
  then show ?thesis
    using assms(1,2,5)
    by (simp add: pgInitializeLocalDataTeams_def teamsLoop_Break [OF assms(3,4,5,6)]
        registerTeams_eq)
qed

lemma pgInitializeLocalDataTeams_fails:
  assumes "pgMutexInitializeLocalDataTeams s = Unlocked" and "\<not> pgDoneGetAllTeams s"
    and "1 \<le> n" and "\<forall>q. 1 \<le> q \<and> q < n \<longrightarrow> continuesTeams c q"
    and "snd (snd (teamsPage c n)) \<noteq> None"
  shows "pgInitializeLocalDataTeams c s =
     Returns ((fold registerTeam (teamsOfPages c 1 (n - 1)) s)
       \<lparr>pgGetAllTeamsResponse := holdTeams (teamsPage c n),
        pgFetchLog := pgFetchLog s @ map teamsFetch [1..n],
        pgMutexInitializeLocalDataTeams := Locked\<rparr>, snd (snd (teamsPage c n)))"
  using assms(1,2)
  by (simp add: pgInitializeLocalDataTeams_def teamsLoop_EarlyReturn [OF assms(3,4,5)]
      registerTeams_eq)

lemma pgInitializeLocalDataTeams_diverges:
  assumes "pgMutexInitializeLocalDataTeams s = Unlocked" and "\<not> pgDoneGetAllTeams s"
    and "\<forall>q\<ge>1. continuesTeams c q"
  shows "pgInitializeLocalDataTeams c s = Diverges"
proof -
  have "teamsLoop c 1 (s\<lparr>pgMutexInitializeLocalDataTeams := Locked\<rparr>) = None"
  proof (rule ccontr)
    assume "teamsLoop c 1 (s\<lparr>pgMutexInitializeLocalDataTeams := Locked\<rparr>) \<noteq> None"
    then obtain y where "teamsLoop c 1 (s\<lparr>pgMutexInitializeLocalDataTeams := Locked\<rparr>) = Some y"
      by blast
    from teamsLoop_stops [OF this] assms(3) show False by blast
  qed
  with assms(1,2) show ?thesis
    by (simp add: pgInitializeLocalDataTeams_def)
qed

text \<open>Every way in which the teams loader returns.\<close>

lemma pgInitializeLocalDataTeams_Returns:
  assumes "pgInitializeLocalDataTeams c s = Returns (s', e)"
  shows "pgMutexInitializeLocalDataTeams s = Unlocked \<and>
    (pgDoneGetAllTeams s \<and> s' = s \<and> e = teams_err (pgGetAllTeamsResponse s)
     \<or> \<not> pgDoneGetAllTeams s \<and>
        (\<exists>n\<ge>1. (\<forall>q. 1 \<le> q \<and> q < n \<longrightarrow> continuesTeams c q) \<and> \<not> continuesTeams c n))"
proof -
  have unl: "pgMutexInitializeLocalDataTeams s = Unlocked"
    using assms by (cases "pgMutexInitializeLocalDataTeams s")
      (simp_all add: pgInitializeLocalDataTeams_def)
  show ?thesis
  proof (cases "pgDoneGetAllTeams s")
    case True
    with assms unl show ?thesis
      by (auto simp: pgInitializeLocalDataTeams_done)
  next
    case False
    have "teamsLoop c 1 (s\<lparr>pgMutexInitializeLocalDataTeams := Locked\<rparr>) \<noteq> None"
      using assms unl False
      by (auto simp: pgInitializeLocalDataTeams_def split: option.splits)
    then obtain y where "teamsLoop c 1 (s\<lparr>pgMutexInitializeLocalDataTeams := Locked\<rparr>) = Some y"
      by blast
    from teamsLoop_stops [OF this] unl False show ?thesis by blast
  qed
qed

subsection \<open>The loader of a team's repositories as a whole\<close>

lemma pgInitializeLocalDataTeamRepos_unregistered:
  "pgMutexInitializeLocalDataTeamRepos s t = None \<Longrightarrow>
     pgInitializeLocalDataTeamRepos c t s = Panics"
  by (simp add: pgInitializeLocalDataTeamRepos_def lockTeamRepos_def)

lemma pgInitializeLocalDataTeamRepos_locked:
  "pgMutexInitializeLocalDataTeamRepos s t = Some Locked \<Longrightarrow>
     pgInitializeLocalDataTeamRepos c t s = Blocks"
  by (simp add: pgInitializeLocalDataTeamRepos_def lockTeamRepos_def)

lemma relock_unlocked:
  assumes "pgMutexInitializeLocalDataTeamRepos s t = Some Unlocked"
  shows "(pgMutexInitializeLocalDataTeamRepos s)(t \<mapsto> Unlocked) =
     pgMutexInitializeLocalDataTeamRepos s"
  using assms by (simp add: fun_upd_idem)

lemma pgInitializeLocalDataTeamRepos_done:
  assumes "pgMutexInitializeLocalDataTeamRepos s t = Some Unlocked" and "doneTeamRepos s t"
  shows "pgInitializeLocalDataTeamRepos c t s =
     Returns (s, repos_err (pgGetAllTeamReposResponse s))"
  using assms
  by (simp add: pgInitializeLocalDataTeamRepos_def lockTeamRepos_def unlockTeamRepos_def
      doneTeamRepos_def relock_unlocked)

lemma pgInitializeLocalDataTeamRepos_succeeds:
  assumes "pgMutexInitializeLocalDataTeamRepos s t = Some Unlocked"
    and "\<not> doneTeamRepos s t"
    and "1 \<le> n" and "\<forall>q. 1 \<le> q \<and> q < n \<longrightarrow> continuesTeamRepos c t q"
    and "snd (snd (teamReposPage c t n)) = None"
    and "length (fst (teamReposPage c t n)) < 100"
  shows "pgInitializeLocalDataTeamRepos c t s =
     Returns (s\<lparr>pgGetAllTeamReposResponse := holdTeamRepos (teamReposPage c t n),
               pgFetchLog := pgFetchLog s @ map (teamReposFetch t) [1..n],
               pgReposByTeamIdAndRepoName :=
                 (pgReposByTeamIdAndRepoName s)
                   (t \<mapsto> fold indexRepo (reposOfPages c t 1 n) Map.empty),
               pgDoneGetAllTeamRepos := (pgDoneGetAllTeamRepos s)(t \<mapsto> True)\<rparr>, None)"
  using assms(1,2,5)
  by (simp add: pgInitializeLocalDataTeamRepos_def lockTeamRepos_def unlockTeamRepos_def
      doneTeamRepos_def relock_unlocked teamReposLoop_Break [OF assms(3,4,5,6)])

lemma pgInitializeLocalDataTeamRepos_fails:
  assumes "pgMutexInitializeLocalDataTeamRepos s t = Some Unlocked"
    and "\<not> doneTeamRepos s t"
    and "1 \<le> n" and "\<forall>q. 1 \<le> q \<and> q < n \<longrightarrow> continuesTeamRepos c t q"
    and "snd (snd (teamReposPage c t n)) \<noteq> None"
  shows "pgInitializeLocalDataTeamRepos c t s =
     Returns (s\<lparr>pgGetAllTeamReposResponse := holdTeamRepos (teamReposPage c t n),
               pgFetchLog := pgFetchLog s @ map (teamReposFetch t) [1..n],
               pgMutexInitializeLocalDataTeamRepos :=
                 (pgMutexInitializeLocalDataTeamRepos s)(t \<mapsto> Locked)\<rparr>,
              snd (snd (teamReposPage c t n)))"
  using assms(1,2)
  by (simp add: pgInitializeLocalDataTeamRepos_def lockTeamRepos_def
      doneTeamRepos_def teamReposLoop_EarlyReturn [OF assms(3,4,5)])

lemma pgInitializeLocalDataTeamRepos_diverges:
  assumes "pgMutexInitializeLocalDataTeamRepos s t = Some Unlocked"
    and "\<not> doneTeamRepos s t"
    and "\<forall>q\<ge>1. continuesTeamRepos c t q"
  shows "pgInitializeLocalDataTeamRepos c t s = Diverges"
proof -
  have "teamReposLoop c t 1 m s' = None" for m s'
  proof (rule ccontr)
    assume "teamReposLoop c t 1 m s' \<noteq> None"
    then obtain y where "teamReposLoop c t 1 m s' = Some y"
      by blast
    from teamReposLoop_stops [OF this] assms(3) show False by blast
  qed
  with assms(1,2) show ?thesis
    by (simp add: pgInitializeLocalDataTeamRepos_def lockTeamRepos_def doneTeamRepos_def)
qed

text \<open>Every way in which the loader of a team's repositories returns.\<close>

lemma pgInitializeLocalDataTeamRepos_Returns:
  assumes "pgInitializeLocalDataTeamRepos c t s = Returns (s', e)"
  shows "pgMutexInitializeLocalDataTeamRepos s t = Some Unlocked \<and>
    (doneTeamRepos s t \<and> s' = s \<and> e = repos_err (pgGetAllTeamReposResponse s)
     \<or> \<not> doneTeamRepos s t \<and>
        (\<exists>n\<ge>1. (\<forall>q. 1 \<le> q \<and> q < n \<longrightarrow> continuesTeamRepos c t q) \<and>
           \<not> continuesTeamRepos c t n))"
proof -
  have unl: "pgMutexInitializeLocalDataTeamRepos s t = Some Unlocked"
    using assms
    by (auto simp: pgInitializeLocalDataTeamRepos_def lockTeamRepos_def
        split: option.splits Mutex.splits)
  show ?thesis
  proof (cases "doneTeamRepos s t")
    case True
    with assms unl show ?thesis
      by (auto simp: pgInitializeLocalDataTeamRepos_done)
  next
    case False
    have "teamReposLoop c t 1 Map.empty
        (s\<lparr>pgMutexInitializeLocalDataTeamRepos :=
             (pgMutexInitializeLocalDataTeamRepos s)(t \<mapsto> Locked)\<rparr>) \<noteq> None"
      using assms unl False
      by (auto simp: pgInitializeLocalDataTeamRepos_def lockTeamRepos_def doneTeamRepos_def
          split: option.splits)
    then obtain y where "teamReposLoop c t 1 Map.empty
        (s\<lparr>pgMutexInitializeLocalDataTeamRepos :=
             (pgMutexInitializeLocalDataTeamRepos s)(t \<mapsto> Locked)\<rparr>) = Some y"
      by blast
    from teamReposLoop_stops [OF this] unl False show ?thesis by blast
  qed
qed

subsection \<open>The ways in which a loader returns\<close>

lemma pgInitializeLocalDataTeams_cases:
  assumes "pgInitializeLocalDataTeams c s = Returns (s', e)"
  obtains (already) "pgDoneGetAllTeams s" "pgMutexInitializeLocalDataTeams s = Unlocked"
      "s' = s" "e = teams_err (pgGetAllTeamsResponse s)"
  | (loaded) n where "\<not> pgDoneGetAllTeams s" "pgMutexInitializeLocalDataTeams s = Unlocked"
      "1 \<le> n" "\<forall>q. 1 \<le> q \<and> q < n \<longrightarrow> continuesTeams c q"
      "snd (snd (teamsPage c n)) = None" "length (fst (teamsPage c n)) < 100"
      "e = None"
      "s' = (fold registerTeam (teamsOfPages c 1 n) s)
         \<lparr>pgGetAllTeamsResponse := holdTeams (teamsPage c n),
          pgFetchLog := pgFetchLog s @ map teamsFetch [1..n],
          pgDoneGetAllTeams := True\<rparr>"
  | (failed) n where "\<not> pgDoneGetAllTeams s" "pgMutexInitializeLocalDataTeams s = Unlocked"
      "1 \<le> n" "\<forall>q. 1 \<le> q \<and> q < n \<longrightarrow> continuesTeams c q"
      "snd (snd (teamsPage c n)) \<noteq> None"
      "e = snd (snd (teamsPage c n))"
      "s' = (fold registerTeam (teamsOfPages c 1 (n - 1)) s)
         \<lparr>pgGetAllTeamsResponse := holdTeams (teamsPage c n),
          pgFetchLog := pgFetchLog s @ map teamsFetch [1..n],
          pgMutexInitializeLocalDataTeams := Locked\<rparr>"
proof -
  from pgInitializeLocalDataTeams_Returns [OF assms]
  have unl: "pgMutexInitializeLocalDataTeams s = Unlocked"
    and alt: "pgDoneGetAllTeams s \<and> s' = s \<and> e = teams_err (pgGetAllTeamsResponse s)
     \<or> \<not> pgDoneGetAllTeams s \<and>
        (\<exists>n\<ge>1. (\<forall>q. 1 \<le> q \<and> q < n \<longrightarrow> continuesTeams c q) \<and> \<not> continuesTeams c n)"
    by blast+
  show thesis
  proof (cases "pgDoneGetAllTeams s")
    case True
    with alt unl show thesis by (intro already) blast+
  next
    case False
    with alt obtain n where n: "1 \<le> n" "\<forall>q. 1 \<le> q \<and> q < n \<longrightarrow> continuesTeams c q"
      "\<not> continuesTeams c n"
      by blast
    show thesis
    proof (cases "snd (snd (teamsPage c n)) = None")
      case True
      with n(3) have short: "length (fst (teamsPage c n)) < 100"
        by (simp add: continuesTeams_def)
      from pgInitializeLocalDataTeams_succeeds [OF unl False n(1,2) True short] assms
      show thesis
        by (intro loaded [of n]) (simp_all add: False unl n True short)
    next
      case err: False
      from pgInitializeLocalDataTeams_fails [OF unl False n(1,2) err] assms
      show thesis
        by (intro failed [of n]) (simp_all add: False unl n err)
    qed
  qed
qed

lemma pgInitializeLocalDataTeamRepos_cases:
  assumes "pgInitializeLocalDataTeamRepos c t s = Returns (s', e)"
  obtains (already) "doneTeamRepos s t"
      "pgMutexInitializeLocalDataTeamRepos s t = Some Unlocked"
      "s' = s" "e = repos_err (pgGetAllTeamReposResponse s)"
  | (loaded) n where "\<not> doneTeamRepos s t"
      "pgMutexInitializeLocalDataTeamRepos s t = Some Unlocked"
      "1 \<le> n" "\<forall>q. 1 \<le> q \<and> q < n \<longrightarrow> continuesTeamRepos c t q"
      "snd (snd (teamReposPage c t n)) = None" "length (fst (teamReposPage c t n)) < 100"
      "e = None"
      "s' = s\<lparr>pgGetAllTeamReposResponse := holdTeamRepos (teamReposPage c t n),
               pgFetchLog := pgFetchLog s @ map (teamReposFetch t) [1..n],
               pgReposByTeamIdAndRepoName :=
                 (pgReposByTeamIdAndRepoName s)
                   (t \<mapsto> fold indexRepo (reposOfPages c t 1 n) Map.empty),
               pgDoneGetAllTeamRepos := (pgDoneGetAllTeamRepos s)(t \<mapsto> True)\<rparr>"
  | (failed) n where "\<not> doneTeamRepos s t"
      "pgMutexInitializeLocalDataTeamRepos s t = Some Unlocked"
      "1 \<le> n" "\<forall>q. 1 \<le> q \<and> q < n \<longrightarrow> continuesTeamRepos c t q"
      "snd (snd (teamReposPage c t n)) \<noteq> None"
      "e = snd (snd (teamReposPage c t n))"
      "s' = s\<lparr>pgGetAllTeamReposResponse := holdTeamRepos (teamReposPage c t n),
               pgFetchLog := pgFetchLog s @ map (teamReposFetch t) [1..n],
               pgMutexInitializeLocalDataTeamRepos :=
                 (pgMutexInitializeLocalDataTeamRepos s)(t \<mapsto> Locked)\<rparr>"
proof -
  from pgInitializeLocalDataTeamRepos_Returns [OF assms]
  have unl: "pgMutexInitializeLocalDataTeamRepos s t = Some Unlocked"
    and alt: "doneTeamRepos s t \<and> s' = s \<and> e = repos_err (pgGetAllTeamReposResponse s)
     \<or> \<not> doneTeamRepos s t \<and>
        (\<exists>n\<ge>1. (\<forall>q. 1 \<le> q \<and> q < n \<longrightarrow> continuesTeamRepos c t q) \<and>
           \<not> continuesTeamRepos c t n)"
    by blast+
  show thesis
  proof (cases "doneTeamRepos s t")
    case True
    with alt unl show thesis by (intro already) blast+
  next
    case False
    with alt obtain n where n: "1 \<le> n"
      "\<forall>q. 1 \<le> q \<and> q < n \<longrightarrow> continuesTeamRepos c t q" "\<not> continuesTeamRepos c t n"
      by blast
    show thesis
    proof (cases "snd (snd (teamReposPage c t n)) = None")
      case True
      with n(3) have short: "length (fst (teamReposPage c t n)) < 100"
        by (simp add: continuesTeamRepos_def)
      from pgInitializeLocalDataTeamRepos_succeeds [OF unl False n(1,2) True short] assms
      show thesis
        by (intro loaded [of n]) (simp_all add: False unl n True short)
    next
      case err: False
      from pgInitializeLocalDataTeamRepos_fails [OF unl False n(1,2) err] assms
      show thesis
        by (intro failed [of n]) (simp_all add: False unl n err)
    qed
  qed
qed

text \<open>What the state looks like after an ensure-load call that returned nil.\<close>

lemma pgInitializeLocalDataTeams_nil:
  assumes "pgInitializeLocalDataTeams c s = Returns (s', None)"
  shows "pgDoneGetAllTeams s' \<and> pgMutexInitializeLocalDataTeams s' = Unlocked \<and>
    teams_err (pgGetAllTeamsResponse s') = None"
  using assms
proof (cases rule: pgInitializeLocalDataTeams_cases)
  case already
  then show ?thesis by simp
next
  case (loaded n)
  then show ?thesis by (simp add: registerTeams_eq)
next
  case (failed n)
  then show ?thesis by simp
qed

lemma pgInitializeLocalDataTeamRepos_nil:
  assumes "pgInitializeLocalDataTeamRepos c t s = Returns (s', None)"
  shows "doneTeamRepos s' t \<and> pgMutexInitializeLocalDataTeamRepos s' t = Some Unlocked \<and>
    repos_err (pgGetAllTeamReposResponse s') = None"
  using assms
proof (cases rule: pgInitializeLocalDataTeamRepos_cases)
  case already
  then show ?thesis by simp
next
  case (loaded n)
  then show ?thesis by (simp add: doneTeamRepos_def)
next
  case (failed n)
  then show ?thesis by simp
qed

text \<open>
  A load that ran and returned an error has left through the \<open>return\<close> inside the loop:
  the loader's mutex is still held, and the next call of the same function blocks.
\<close>

lemma failed_teams_load_blocks_next_call:
  assumes "pgInitializeLocalDataTeams c s = Returns (s', Some e)" and "\<not> pgDoneGetAllTeams s"
  shows "pgMutexInitializeLocalDataTeams s' = Locked"
    and "\<not> pgDoneGetAllTeams s'"
    and "pgInitializeLocalDataTeams c' s' = Blocks"
proof -
  from assms(1) have "pgMutexInitializeLocalDataTeams s' = Locked \<and> \<not> pgDoneGetAllTeams s'"
  proof (cases rule: pgInitializeLocalDataTeams_cases)
    case already
    with assms(2) show ?thesis by simp
  next
    case (loaded n)
    then show ?thesis by simp
  next
    case (failed n)
    then show ?thesis by (simp add: registerTeams_eq)
  qed
  then show "pgMutexInitializeLocalDataTeams s' = Locked" and "\<not> pgDoneGetAllTeams s'"
    and "pgInitializeLocalDataTeams c' s' = Blocks"
    by (simp_all add: pgInitializeLocalDataTeams_locked)
qed

lemma failed_repos_load_blocks_next_call:
  assumes "pgInitializeLocalDataTeamRepos c t s = Returns (s', Some e)"
    and "\<not> doneTeamRepos s t"
  shows "pgMutexInitializeLocalDataTeamRepos s' t = Some Locked"
    and "\<not> doneTeamRepos s' t"
    and "pgInitializeLocalDataTeamRepos c' t s' = Blocks"
proof -
  from assms(1) have "pgMutexInitializeLocalDataTeamRepos s' t = Some Locked \<and>
      \<not> doneTeamRepos s' t"
  proof (cases rule: pgInitializeLocalDataTeamRepos_cases)
    case already
    with assms(2) show ?thesis by simp
  next
    case (loaded n)
    then show ?thesis by simp
  next
    case (failed n)
    then show ?thesis by (simp add: doneTeamRepos_def)
  qed
  then show "pgMutexInitializeLocalDataTeamRepos s' t = Some Locked"
    and "\<not> doneTeamRepos s' t"
    and "pgInitializeLocalDataTeamRepos c' t s' = Blocks"
    by (simp_all add: pgInitializeLocalDataTeamRepos_locked)
qed

text \<open>
  The repositories loader and the repository lookup leave everything about the teams as
  it is: the teams holder, the two team indices, the teams flag and the teams mutex.
\<close>

lemma pgInitializeLocalDataTeamRepos_keeps_teams:
  assumes "pgInitializeLocalDataTeamRepos c t s = Returns (s', e)"
  shows "pgGetAllTeamsResponse s' = pgGetAllTeamsResponse s"
    and "pgTeamsByTeamId s' = pgTeamsByTeamId s"
    and "pgTeamsByTeamSlug s' = pgTeamsByTeamSlug s"
    and "pgDoneGetAllTeams s' = pgDoneGetAllTeams s"
    and "pgMutexInitializeLocalDataTeams s' = pgMutexInitializeLocalDataTeams s"
  using assms by (cases rule: pgInitializeLocalDataTeamRepos_cases; simp)+

subsection \<open>The teams a load fetched\<close>

lemma teamsReturnedTo_teamsFetch:
  "teamsReturnedTo c (map teamsFetch ps) = concat (map (\<lambda>q. fst (teamsPage c q)) ps)"
  by (induction ps) (simp_all add: teamsReturnedTo_def teamsFetch_def teamsPage_def)

lemma fetchedTeams_after_load:
  "pgFetchLog s' = pgFetchLog s @ map teamsFetch [p..n] \<Longrightarrow>
     fetchedTeams c s s' = teamsOfPages c p n"
  by (simp add: fetchedTeams_def teamsReturnedTo_teamsFetch teamsOfPages_def)

subsection \<open>The first page that stops a loop\<close>

lemma first_page_with:
  fixes P :: "int \<Rightarrow> bool"
  assumes "\<exists>m\<ge>1. P m"
  obtains n where "1 \<le> n" "P n" "\<forall>q. 1 \<le> q \<and> q < n \<longrightarrow> \<not> P q"
proof -
  define k where "k = (LEAST j. P (1 + int j))"
  from assms obtain m where m: "1 \<le> m" "P m" by blast
  then have "P (1 + int (nat (m - 1)))" by simp
  then have stop: "P (1 + int k)"
    unfolding k_def by (rule LeastI)
  have before: "\<not> P (1 + int j)" if "j < k" for j
    using that not_less_Least unfolding k_def by blast
  have "\<forall>q. 1 \<le> q \<and> q < 1 + int k \<longrightarrow> \<not> P q"
  proof (intro allI impI)
    fix q assume a: "1 \<le> q \<and> q < 1 + int k"
    then have "nat (q - 1) < k" by linarith
    from before [OF this] a show "\<not> P q" by simp
  qed
  with stop show thesis
    by (intro that [of "1 + int k"]) simp_all
qed

lemma teamsOfPages_snoc:
  "p \<le> n \<Longrightarrow> teamsOfPages c p n = teamsOfPages c p (n - 1) @ fst (teamsPage c n)"
  by (simp add: teamsOfPages_def upto_rec2)

subsection \<open>The steps of a caller, alone and beside another\<close>

lemma oneCaller_steps:
  "reposStep c t pc s = Some (pc', s') \<Longrightarrow> (oneCaller c t)\<^sup>*\<^sup>* (pc', s') z \<Longrightarrow>
     (oneCaller c t)\<^sup>*\<^sup>* (pc, s) z"
  by (meson oneCaller.step converse_rtranclp_into_rtranclp)

lemma oneCaller_pass_continues:
  assumes "continuesTeamRepos c t p"
  shows "(oneCaller c t)\<^sup>*\<^sup>* (AtFetch p m, s)
     (AtFetch (p + 1) (fold indexRepo (fst (teamReposPage c t p)) m),
      fetchTeamReposPage c t p s)"
proof -
  let ?s1 = "fetchTeamReposPage c t p s"
  let ?m = "fold indexRepo (fst (teamReposPage c t p)) m"
  have 1: "reposStep c t (AtFetch p m) s = Some (AtErrTest p m, ?s1)"
    by (simp add: reposStep_def)
  have 2: "reposStep c t (AtErrTest p m) ?s1 = Some (AtIndex p m, ?s1)"
    using assms by (simp add: reposStep_def continuesTeamRepos_def fetchTeamReposPage_eq)
  have 3: "reposStep c t (AtIndex p m) ?s1 = Some (AtLenTest p ?m, ?s1)"
    by (simp add: reposStep_def fetchTeamReposPage_eq)
  have 4: "reposStep c t (AtLenTest p ?m) ?s1 = Some (AtFetch (p + 1) ?m, ?s1)"
    using assms by (simp add: reposStep_def continuesTeamRepos_def fetchTeamReposPage_eq)
  show ?thesis
    by (rule oneCaller_steps [OF 1], rule oneCaller_steps [OF 2],
        rule oneCaller_steps [OF 3], rule oneCaller_steps [OF 4]) simp
qed

lemma oneCaller_pass_short:
  assumes "snd (snd (teamReposPage c t p)) = None"
    and "length (fst (teamReposPage c t p)) < 100"
  shows "(oneCaller c t)\<^sup>*\<^sup>* (AtFetch p m, s)
     (AtStore (fold indexRepo (fst (teamReposPage c t p)) m), fetchTeamReposPage c t p s)"
proof -
  let ?s1 = "fetchTeamReposPage c t p s"
  let ?m = "fold indexRepo (fst (teamReposPage c t p)) m"
  have 1: "reposStep c t (AtFetch p m) s = Some (AtErrTest p m, ?s1)"
    by (simp add: reposStep_def)
  have 2: "reposStep c t (AtErrTest p m) ?s1 = Some (AtIndex p m, ?s1)"
    using assms by (simp add: reposStep_def fetchTeamReposPage_eq)
  have 3: "reposStep c t (AtIndex p m) ?s1 = Some (AtLenTest p ?m, ?s1)"
    by (simp add: reposStep_def fetchTeamReposPage_eq)
  have 4: "reposStep c t (AtLenTest p ?m) ?s1 = Some (AtStore ?m, ?s1)"
    using assms by (simp add: reposStep_def fetchTeamReposPage_eq)
  show ?thesis
    by (rule oneCaller_steps [OF 1], rule oneCaller_steps [OF 2],
        rule oneCaller_steps [OF 3], rule oneCaller_steps [OF 4]) simp
qed

lemma oneCaller_pass_error:
  assumes "snd (snd (teamReposPage c t p)) \<noteq> None"
  shows "(oneCaller c t)\<^sup>*\<^sup>* (AtFetch p m, s) (AtReturn, fetchTeamReposPage c t p s)"
proof -
  let ?s1 = "fetchTeamReposPage c t p s"
  have 1: "reposStep c t (AtFetch p m) s = Some (AtErrTest p m, ?s1)"
    by (simp add: reposStep_def)
  have 2: "reposStep c t (AtErrTest p m) ?s1 = Some (AtReturn, ?s1)"
    using assms by (simp add: reposStep_def fetchTeamReposPage_eq)
  show ?thesis
    by (rule oneCaller_steps [OF 1], rule oneCaller_steps [OF 2]) simp
qed

lemma oneCaller_loop_Break:
  assumes "p \<le> n" and "\<forall>q. p \<le> q \<and> q < n \<longrightarrow> continuesTeamRepos c t q"
    and "snd (snd (teamReposPage c t n)) = None"
    and "length (fst (teamReposPage c t n)) < 100"
  shows "(oneCaller c t)\<^sup>*\<^sup>* (AtFetch p m, s)
     (AtStore (fold indexRepo (reposOfPages c t p n) m),
      s\<lparr>pgGetAllTeamReposResponse := holdTeamRepos (teamReposPage c t n),
        pgFetchLog := pgFetchLog s @ map (teamReposFetch t) [p..n]\<rparr>)"
  using assms
proof (induction "nat (n - p)" arbitrary: p m s)
  case 0
  then have "p = n" by simp
  with oneCaller_pass_short [OF 0(4,5), of m s] show ?case
    by (simp add: fetchTeamReposPage_eq)
next
  case (Suc k)
  then have lt: "p < n" by linarith
  with Suc.prems have cont: "continuesTeamRepos c t p" by simp
  have ih: "(oneCaller c t)\<^sup>*\<^sup>* (AtFetch (p + 1) m', s')
     (AtStore (fold indexRepo (reposOfPages c t (p + 1) n) m'),
      s'\<lparr>pgGetAllTeamReposResponse := holdTeamRepos (teamReposPage c t n),
         pgFetchLog := pgFetchLog s' @ map (teamReposFetch t) [p + 1..n]\<rparr>)" for m' s'
    using Suc.hyps(2) Suc.prems lt by (intro Suc.hyps(1)) auto
  from oneCaller_pass_continues [OF cont, of m s]
    ih [of "fold indexRepo (fst (teamReposPage c t p)) m" "fetchTeamReposPage c t p s"]
  have "(oneCaller c t)\<^sup>*\<^sup>* (AtFetch p m, s)
     (AtStore (fold indexRepo (reposOfPages c t (p + 1) n)
        (fold indexRepo (fst (teamReposPage c t p)) m)),
      (fetchTeamReposPage c t p s)
        \<lparr>pgGetAllTeamReposResponse := holdTeamRepos (teamReposPage c t n),
         pgFetchLog := pgFetchLog (fetchTeamReposPage c t p s) @
           map (teamReposFetch t) [p + 1..n]\<rparr>)"
    by (rule rtranclp_trans)
  then show ?case
    using lt by (simp add: reposOfPages_rec upto_rec1 fetchTeamReposPage_eq)
qed

lemma oneCaller_loop_EarlyReturn:
  assumes "p \<le> n" and "\<forall>q. p \<le> q \<and> q < n \<longrightarrow> continuesTeamRepos c t q"
    and "snd (snd (teamReposPage c t n)) \<noteq> None"
  shows "(oneCaller c t)\<^sup>*\<^sup>* (AtFetch p m, s)
     (AtReturn,
      s\<lparr>pgGetAllTeamReposResponse := holdTeamRepos (teamReposPage c t n),
        pgFetchLog := pgFetchLog s @ map (teamReposFetch t) [p..n]\<rparr>)"
  using assms
proof (induction "nat (n - p)" arbitrary: p m s)
  case 0
  then have "p = n" by simp
  with oneCaller_pass_error [OF 0(4), of m s] show ?case
    by (simp add: fetchTeamReposPage_eq)
next
  case (Suc k)
  then have lt: "p < n" by linarith
  with Suc.prems have cont: "continuesTeamRepos c t p" by simp
  have ih: "(oneCaller c t)\<^sup>*\<^sup>* (AtFetch (p + 1) m', s')
     (AtReturn,
      s'\<lparr>pgGetAllTeamReposResponse := holdTeamRepos (teamReposPage c t n),
         pgFetchLog := pgFetchLog s' @ map (teamReposFetch t) [p + 1..n]\<rparr>)" for m' s'
    using Suc.hyps(2) Suc.prems lt by (intro Suc.hyps(1)) auto
  from oneCaller_pass_continues [OF cont, of m s]
    ih [of "fold indexRepo (fst (teamReposPage c t p)) m" "fetchTeamReposPage c t p s"]
  have "(oneCaller c t)\<^sup>*\<^sup>* (AtFetch p m, s)
     (AtReturn,
      (fetchTeamReposPage c t p s)
        \<lparr>pgGetAllTeamReposResponse := holdTeamRepos (teamReposPage c t n),
         pgFetchLog := pgFetchLog (fetchTeamReposPage c t p s) @
           map (teamReposFetch t) [p + 1..n]\<rparr>)"
    by (rule rtranclp_trans)
  then show ?case
    using lt by (simp add: upto_rec1 fetchTeamReposPage_eq)
qed

text \<open>
  A caller that runs alone ends as the function does: where the function returns a state
  and an error, the steps lead from \<open>Lock\<close> to \<open>Returned\<close> with that error in that
  state; where it panics, the first step does; where it blocks, there is no first step.
\<close>

lemma oneCaller_agrees:
  "pgInitializeLocalDataTeamRepos c t s = Returns (s', e) \<Longrightarrow>
     (oneCaller c t)\<^sup>*\<^sup>* (AtLock, s) (Returned e, s')"
  "pgMutexInitializeLocalDataTeamRepos s t = None \<Longrightarrow>
     reposStep c t AtLock s = Some (Panicked, s)"
  "pgInitializeLocalDataTeamRepos c t s = Blocks \<Longrightarrow> reposStep c t AtLock s = None"
proof -
  show "reposStep c t AtLock s = Some (Panicked, s)"
    if "pgMutexInitializeLocalDataTeamRepos s t = None"
    using that by (simp add: reposStep_def lockTeamRepos_def)
  show "reposStep c t AtLock s = None" if "pgInitializeLocalDataTeamRepos c t s = Blocks"
    using that
    by (auto simp: reposStep_def pgInitializeLocalDataTeamRepos_def lockTeamRepos_def
        unlockTeamRepos_def Let_def
        split: option.splits Mutex.splits loop_exit.splits prod.splits if_splits)
  assume run: "pgInitializeLocalDataTeamRepos c t s = Returns (s', e)"
  let ?locked = "s\<lparr>pgMutexInitializeLocalDataTeamRepos :=
      (pgMutexInitializeLocalDataTeamRepos s)(t \<mapsto> Locked)\<rparr>"
  from run show "(oneCaller c t)\<^sup>*\<^sup>* (AtLock, s) (Returned e, s')"
  proof (cases rule: pgInitializeLocalDataTeamRepos_cases)
    case already
    have 1: "reposStep c t AtLock s = Some (AtCheck, ?locked)"
      using already(2) by (simp add: reposStep_def lockTeamRepos_def)
    have 2: "reposStep c t AtCheck ?locked = Some (AtUnlock, ?locked)"
      using already(1) by (simp add: reposStep_def doneTeamRepos_def)
    have 3: "reposStep c t AtUnlock ?locked = Some (AtReturn, s)"
      using already(2) by (simp add: reposStep_def unlockTeamRepos_def relock_unlocked)
    have 4: "reposStep c t AtReturn s = Some (Returned e, s')"
      using already(3,4) by (simp add: reposStep_def)
    show ?thesis
      by (rule oneCaller_steps [OF 1], rule oneCaller_steps [OF 2],
          rule oneCaller_steps [OF 3], rule oneCaller_steps [OF 4]) simp
  next
    case (loaded n)
    let ?m = "fold indexRepo (reposOfPages c t 1 n) Map.empty"
    let ?s2 = "?locked\<lparr>pgGetAllTeamReposResponse := holdTeamRepos (teamReposPage c t n),
        pgFetchLog := pgFetchLog ?locked @ map (teamReposFetch t) [1..n]\<rparr>"
    let ?s3 = "?s2\<lparr>pgReposByTeamIdAndRepoName :=
        (pgReposByTeamIdAndRepoName ?s2)(t \<mapsto> ?m)\<rparr>"
    let ?s4 = "?s3\<lparr>pgDoneGetAllTeamRepos := (pgDoneGetAllTeamRepos ?s3)(t \<mapsto> True)\<rparr>"
    have 1: "reposStep c t AtLock s = Some (AtCheck, ?locked)"
      using loaded(2) by (simp add: reposStep_def lockTeamRepos_def)
    have 2: "reposStep c t AtCheck ?locked = Some (AtFetch 1 Map.empty, ?locked)"
      using loaded(1) by (simp add: reposStep_def doneTeamRepos_def)
    note loop = oneCaller_loop_Break [OF loaded(3,4,5,6), of Map.empty ?locked]
    have 3: "reposStep c t (AtStore ?m) ?s2 = Some (AtSetDone, ?s3)"
      by (simp add: reposStep_def)
    have 4: "reposStep c t AtSetDone ?s3 = Some (AtUnlock, ?s4)"
      by (simp add: reposStep_def)
    have 5: "reposStep c t AtUnlock ?s4 = Some (AtReturn, s')"
      using loaded(2,8) by (simp add: reposStep_def unlockTeamRepos_def relock_unlocked)
    have 6: "reposStep c t AtReturn s' = Some (Returned e, s')"
      using loaded(5,7,8) by (simp add: reposStep_def)
    have tail: "(oneCaller c t)\<^sup>*\<^sup>* (AtStore ?m, ?s2) (Returned e, s')"
      by (rule oneCaller_steps [OF 3], rule oneCaller_steps [OF 4],
          rule oneCaller_steps [OF 5], rule oneCaller_steps [OF 6]) simp
    from loop tail have "(oneCaller c t)\<^sup>*\<^sup>* (AtFetch 1 Map.empty, ?locked) (Returned e, s')"
      by (rule rtranclp_trans)
    then show ?thesis
      by (intro oneCaller_steps [OF 1] oneCaller_steps [OF 2])
  next
    case (failed n)
    let ?s2 = "?locked\<lparr>pgGetAllTeamReposResponse := holdTeamRepos (teamReposPage c t n),
        pgFetchLog := pgFetchLog ?locked @ map (teamReposFetch t) [1..n]\<rparr>"
    have 1: "reposStep c t AtLock s = Some (AtCheck, ?locked)"
      using failed(2) by (simp add: reposStep_def lockTeamRepos_def)
    have 2: "reposStep c t AtCheck ?locked = Some (AtFetch 1 Map.empty, ?locked)"
      using failed(1) by (simp add: reposStep_def doneTeamRepos_def)
    note loop = oneCaller_loop_EarlyReturn [OF failed(3,4,5), of Map.empty ?locked]
    have 3: "reposStep c t AtReturn ?s2 = Some (Returned e, s')"
      using failed(6,7) by (simp add: reposStep_def)
    have tail: "(oneCaller c t)\<^sup>*\<^sup>* (AtReturn, ?s2) (Returned e, s')"
      by (rule oneCaller_steps [OF 3]) simp
    from loop tail have "(oneCaller c t)\<^sup>*\<^sup>* (AtFetch 1 Map.empty, ?locked) (Returned e, s')"
      by (rule rtranclp_trans)
    then show ?thesis
      by (intro oneCaller_steps [OF 1] oneCaller_steps [OF 2])
  qed
qed

text \<open>What one step of a caller for team \<open>t\<close> does to the mutexes.\<close>

lemma reposStep_mutexes:
  assumes "reposStep c t pc s = Some (pc', s')"
  shows "pc' \<noteq> AtLock"
    and "u \<noteq> t \<Longrightarrow>
      pgMutexInitializeLocalDataTeamRepos s' u = pgMutexInitializeLocalDataTeamRepos s u"
  using assms
  by (auto simp: reposStep_def lockTeamRepos_def unlockTeamRepos_def fetchTeamReposPage_def
      Let_def split: reposPC.splits option.splits Mutex.splits if_splits prod.splits)

lemma reposStep_None:
  "(reposStep c t pc s = None) = (isFinal pc \<or> waitsInLock t pc s)"
  by (cases pc)
     (auto simp: reposStep_def waitsInLock_def lockTeamRepos_def unlockTeamRepos_def
      split: option.splits Mutex.splits)


text \<open>
  While two callers for distinct teams run from a state in which both teams' mutexes are
  free, a caller that is at \<open>Lock\<close> finds its mutex free.
\<close>

lemma twoCallers_invariant:
  assumes "A \<noteq> B"
    and "pgMutexInitializeLocalDataTeamRepos s0 A = Some Unlocked"
    and "pgMutexInitializeLocalDataTeamRepos s0 B = Some Unlocked"
    and "(twoCallers cA A cB B)\<^sup>*\<^sup>* (AtLock, AtLock, s0) cfg"
  shows "case cfg of (pcA, pcB, s) \<Rightarrow>
      (pcA = AtLock \<longrightarrow> pgMutexInitializeLocalDataTeamRepos s A = Some Unlocked) \<and>
      (pcB = AtLock \<longrightarrow> pgMutexInitializeLocalDataTeamRepos s B = Some Unlocked)"
  using assms(4)
proof (induction rule: rtranclp_induct)
  case base
  from assms(2,3) show ?case by simp
next
  case (step y z)
  from step.hyps(2) show ?case
  proof (cases rule: twoCallers.cases)
    case (first pcA s pcA' s' pcB)
    from reposStep_mutexes [OF first(3)] assms(1)
    have "pcA' \<noteq> AtLock"
      and "pgMutexInitializeLocalDataTeamRepos s' B = pgMutexInitializeLocalDataTeamRepos s B"
      by auto
    with step.IH first(1,2) show ?thesis by simp
  next
    case (second pcB s pcB' s' pcA)
    from reposStep_mutexes [OF second(3)] assms(1)
    have "pcB' \<noteq> AtLock"
      and "pgMutexInitializeLocalDataTeamRepos s' A = pgMutexInitializeLocalDataTeamRepos s A"
      by auto
    with step.IH second(1,2) show ?thesis by simp
  qed
qed

lemma pgInitializeLocalDataTeamRepos_Blocks:
  "(pgInitializeLocalDataTeamRepos c t u = Blocks) =
     (pgMutexInitializeLocalDataTeamRepos u t = Some Locked)"
  by (auto simp: pgInitializeLocalDataTeamRepos_def lockTeamRepos_def unlockTeamRepos_def
      Let_def split: option.splits Mutex.splits loop_exit.splits prod.splits)

subsection \<open>Runs of calls from the initial state\<close>

lemma doCall_Returns:
  assumes "doCall k s = Returns s'"
  shows "(\<exists>c e. pgInitializeLocalDataTeams c s = Returns (s', e)) \<or>
         (\<exists>c t e. pgInitializeLocalDataTeamRepos c t s = Returns (s', e))"
  using assms
  by (cases k)
     (auto simp: stateAfter_def pgGetTeamByTeamId_def pgGetTeamByTeamSlug_def
        pgGetRepoByTeamIDAndRepoName_def split: outcome.splits option.splits)

lemma indexAll_const:
  "indexAll f (\<lambda>t. v) ts m k = Some b \<Longrightarrow> m k = Some b \<or> b = v"
  using indexAll_Some [of f "\<lambda>t. v" ts m k b] by auto

lemma not_done_after_registerTeams:
  assumes "pgDoneGetAllTeamRepos s = Map.empty"
  shows "\<not> doneTeamRepos (fold registerTeam ts s) t"
proof -
  have "indexAll GetID (\<lambda>t. False) ts Map.empty t \<noteq> Some True"
    using indexAll_const [of GetID False ts Map.empty t True] by auto
  then show ?thesis
    using assms by (auto simp: doneTeamRepos_def registerTeams_eq split: option.splits)
qed

lemma pgInvariant_initial: "pgInvariant pgInitialState"
  by (simp add: pgInvariant_def pgInitialState_def doneTeamRepos_def)

lemma pgInvariant_teams:
  assumes "pgInitializeLocalDataTeams c s = Returns (s', e)" and "pgInvariant s"
  shows "pgInvariant s'"
  using assms(1)
proof (cases rule: pgInitializeLocalDataTeams_cases)
  case already
  with assms(2) show ?thesis by simp
next
  case (loaded n)
  with assms(2) have empty: "pgMutexInitializeLocalDataTeamRepos s = Map.empty"
    "pgDoneGetAllTeamRepos s = Map.empty" "pgReposByTeamIdAndRepoName s = Map.empty"
    by (simp_all add: pgInvariant_def)
  have nd: "\<not> doneTeamRepos s' t" for t
    using not_done_after_registerTeams [OF empty(2), of "teamsOfPages c 1 n" t] loaded(8)
    by (simp add: doneTeamRepos_def)
  have "pgReposByTeamIdAndRepoName s' = Map.empty"
    using loaded(8) empty(3) by (simp add: registerTeams_eq)
  with nd loaded show ?thesis
    by (simp add: pgInvariant_def registerTeams_eq)
next
  case (failed n)
  with assms(2) have empty: "pgMutexInitializeLocalDataTeamRepos s = Map.empty"
    "pgDoneGetAllTeamRepos s = Map.empty" "pgReposByTeamIdAndRepoName s = Map.empty"
    by (simp_all add: pgInvariant_def)
  have nd: "\<not> doneTeamRepos s' t" for t
    using not_done_after_registerTeams [OF empty(2), of "teamsOfPages c 1 (n - 1)" t] failed(7)
    by (simp add: doneTeamRepos_def)
  have "pgReposByTeamIdAndRepoName s' = Map.empty"
    using failed(7) empty(3) by (simp add: registerTeams_eq)
  with nd failed show ?thesis
    by (simp add: pgInvariant_def registerTeams_eq)
qed

lemma pgInvariant_teamRepos:
  assumes "pgInitializeLocalDataTeamRepos c t s = Returns (s', e)" and "pgInvariant s"
  shows "pgInvariant s'"
  using assms(1)
proof (cases rule: pgInitializeLocalDataTeamRepos_cases)
  case already
  with assms(2) show ?thesis by simp
next
  case (loaded n)
  from loaded(2) have reg: "pgMutexInitializeLocalDataTeamRepos s \<noteq> Map.empty" by auto
  with assms(2) loaded show ?thesis
    by (auto simp: pgInvariant_def doneTeamRepos_def)
next
  case (failed n)
  from failed(2) have reg: "pgMutexInitializeLocalDataTeamRepos s \<noteq> Map.empty" by auto
  with assms(2) failed show ?thesis
    by (auto simp: pgInvariant_def doneTeamRepos_def)
qed

lemma pgInvariant_doCall:
  assumes "doCall k s = Returns s'" and "pgInvariant s"
  shows "pgInvariant s'"
  using doCall_Returns [OF assms(1)] assms(2)
  by (auto intro: pgInvariant_teams pgInvariant_teamRepos)

lemma doCalls_Cons_Returns:
  assumes "doCalls (k # ks) s = Returns s'"
  obtains s1 where "doCall k s = Returns s1" "doCalls ks s1 = Returns s'"
  using assms by (cases "doCall k s") simp_all

lemma doCalls_append:
  "doCalls ks s = Returns s1 \<Longrightarrow> doCalls (ks @ ks') s = doCalls ks' s1"
  by (induction ks arbitrary: s) (auto split: outcome.splits)

lemma pgInvariant_doCalls:
  assumes "doCalls ks s = Returns s'" and "pgInvariant s"
  shows "pgInvariant s'"
  using assms
proof (induction ks arbitrary: s)
  case Nil
  then show ?case by simp
next
  case (Cons k ks)
  from Cons.prems(1) obtain s1 where s1: "doCall k s = Returns s1" "doCalls ks s1 = Returns s'"
    by (rule doCalls_Cons_Returns)
  from pgInvariant_doCall [OF s1(1) Cons.prems(2)] s1(2) show ?case
    by (rule Cons.IH [rotated])
qed

lemma pgInvariant_reachable:
  "doCalls ks pgInitialState = Returns s \<Longrightarrow> pgInvariant s"
  by (rule pgInvariant_doCalls [OF _ pgInvariant_initial])

lemma teamsFetches_append [simp]:
  "teamsFetches (fs @ gs) = teamsFetches fs @ teamsFetches gs"
  by (simp add: teamsFetches_def)

lemma teamReposFetches_append [simp]:
  "teamReposFetches t (fs @ gs) = teamReposFetches t fs @ teamReposFetches t gs"
  by (simp add: teamReposFetches_def)

lemma teamsFetches_of_teamReposFetch [simp]:
  "teamsFetches (map (teamReposFetch u) ps) = []"
  by (induction ps) (simp_all add: teamsFetches_def teamReposFetch_def)

lemma teamReposFetches_of_teamReposFetch:
  "teamReposFetches t (map (teamReposFetch u) ps) =
     (if u = t then map (teamReposFetch t) ps else [])"
  by (induction ps) (auto simp: teamReposFetches_def teamReposFetch_def)

text \<open>Once the teams flag is set, no call changes anything about the teams.\<close>

lemma teams_settled_doCall:
  assumes "doCall k s = Returns s'" and "pgInvariant s" and "pgDoneGetAllTeams s"
  shows "pgDoneGetAllTeams s' \<and>
    pgGetAllTeamsResponse s' = pgGetAllTeamsResponse s \<and>
    pgTeamsByTeamId s' = pgTeamsByTeamId s \<and>
    pgTeamsByTeamSlug s' = pgTeamsByTeamSlug s \<and>
    teamsFetches (pgFetchLog s') = teamsFetches (pgFetchLog s)"
proof -
  from doCall_Returns [OF assms(1)] consider
    (teams) c e where "pgInitializeLocalDataTeams c s = Returns (s', e)"
    | (repos) c t e where "pgInitializeLocalDataTeamRepos c t s = Returns (s', e)"
    by blast
  then show ?thesis
  proof cases
    case teams
    then show ?thesis
      using assms(3) by (cases rule: pgInitializeLocalDataTeams_cases) simp_all
  next
    case repos
    then show ?thesis
      using assms(3) by (cases rule: pgInitializeLocalDataTeamRepos_cases) simp_all
  qed
qed

lemma teams_settled_doCalls:
  assumes "doCalls ks s = Returns s'" and "pgInvariant s" and "pgDoneGetAllTeams s"
  shows "pgDoneGetAllTeams s' \<and>
    pgGetAllTeamsResponse s' = pgGetAllTeamsResponse s \<and>
    pgTeamsByTeamId s' = pgTeamsByTeamId s \<and>
    pgTeamsByTeamSlug s' = pgTeamsByTeamSlug s \<and>
    teamsFetches (pgFetchLog s') = teamsFetches (pgFetchLog s)"
  using assms
proof (induction ks arbitrary: s)
  case Nil
  then show ?case by simp
next
  case (Cons k ks)
  from Cons.prems(1) obtain s1 where s1: "doCall k s = Returns s1" "doCalls ks s1 = Returns s'"
    by (rule doCalls_Cons_Returns)
  note one = teams_settled_doCall [OF s1(1) Cons.prems(2,3)]
  note inv = pgInvariant_doCall [OF s1(1) Cons.prems(2)]
  from one have "pgDoneGetAllTeams s1" by simp
  from Cons.IH [OF s1(2) inv this] one show ?case by simp
qed

text \<open>
  Once the flag of a team is set, no call changes the team's flag, mutex or index, or
  sends a request for the team's repositories.
\<close>

lemma repos_settled_doCall:
  assumes "doCall k s = Returns s'" and "pgInvariant s" and "doneTeamRepos s t"
  shows "doneTeamRepos s' t \<and>
    pgReposByTeamIdAndRepoName s' t = pgReposByTeamIdAndRepoName s t \<and>
    teamReposFetches t (pgFetchLog s') = teamReposFetches t (pgFetchLog s)"
proof -
  from assms(2,3) have reg: "pgDoneGetAllTeamRepos s \<noteq> Map.empty"
    by (auto simp: doneTeamRepos_def split: option.splits)
  from doCall_Returns [OF assms(1)] consider
    (teams) c e where "pgInitializeLocalDataTeams c s = Returns (s', e)"
    | (repos) c u e where "pgInitializeLocalDataTeamRepos c u s = Returns (s', e)"
    by blast
  then show ?thesis
  proof cases
    case teams
    then show ?thesis
    proof (cases rule: pgInitializeLocalDataTeams_cases)
      case already
      with assms(3) show ?thesis by simp
    next
      case (loaded n)
      with assms(2) reg show ?thesis by (simp add: pgInvariant_def)
    next
      case (failed n)
      with assms(2) reg show ?thesis by (simp add: pgInvariant_def)
    qed
  next
    case repos
    then show ?thesis
    proof (cases rule: pgInitializeLocalDataTeamRepos_cases)
      case already
      with assms(3) show ?thesis by simp
    next
      case (loaded n)
      with assms(3) have "u \<noteq> t" by auto
      with loaded assms(3) show ?thesis
        by (simp add: doneTeamRepos_def teamReposFetches_of_teamReposFetch)
    next
      case (failed n)
      with assms(3) have "u \<noteq> t" by auto
      with failed assms(3) show ?thesis
        by (simp add: doneTeamRepos_def teamReposFetches_of_teamReposFetch)
    qed
  qed
qed

lemma repos_settled_doCalls:
  assumes "doCalls ks s = Returns s'" and "pgInvariant s" and "doneTeamRepos s t"
  shows "doneTeamRepos s' t \<and>
    pgReposByTeamIdAndRepoName s' t = pgReposByTeamIdAndRepoName s t \<and>
    teamReposFetches t (pgFetchLog s') = teamReposFetches t (pgFetchLog s)"
  using assms
proof (induction ks arbitrary: s)
  case Nil
  then show ?case by simp
next
  case (Cons k ks)
  from Cons.prems(1) obtain s1 where s1: "doCall k s = Returns s1" "doCalls ks s1 = Returns s'"
    by (rule doCalls_Cons_Returns)
  note one = repos_settled_doCall [OF s1(1) Cons.prems(2,3)]
  note inv = pgInvariant_doCall [OF s1(1) Cons.prems(2)]
  from one have "doneTeamRepos s1 t" by simp
  from Cons.IH [OF s1(2) inv this] one show ?case by simp
qed

text \<open>What an ensure-load call returns is the error its holder has afterwards.\<close>

lemma pgInitializeLocalDataTeams_returns_stored:
  assumes "pgInitializeLocalDataTeams c s = Returns (s', e)"
  shows "e = teams_err (pgGetAllTeamsResponse s')"
  using assms
  by (cases rule: pgInitializeLocalDataTeams_cases) (simp_all add: registerTeams_eq)

lemma pgInitializeLocalDataTeamRepos_returns_stored:
  assumes "pgInitializeLocalDataTeamRepos c t s = Returns (s', e)"
  shows "e = repos_err (pgGetAllTeamReposResponse s')"
  using assms
  by (cases rule: pgInitializeLocalDataTeamRepos_cases) simp_all

subsection \<open>Two loads that interleave on the shared holder\<close>






subsection \<open>Evaluating the functions on the example clients\<close>

lemmas eval_defs = pgInitializeLocalDataTeams_def pgInitializeLocalDataTeamRepos_def
  pgGetTeamByTeamId_def pgGetTeamByTeamSlug_def pgGetRepoByTeamIDAndRepoName_def
  teamsLoop.simps teamReposLoop.simps fetchTeamsPage_def fetchTeamReposPage_def
  registerTeam_def indexRepo_def lockTeamRepos_def unlockTeamRepos_def doneTeamRepos_def
  loadRepo_def notFoundUnlessError_def andThen_def resultOf_def
  pgInitialState_def GetID_def GetSlug_def GetName_def
  failingClient_def twoTeamsClient_def noReposClient_def team7_def team8_def repoApi_def
  teamsLoadedState_def reposLoadedState_def
  pgGithubOrgName_def pgGithubOrgId_def
  StatusNotFound_def

lemma upd_8_7: "(m(8 \<mapsto> x))(7 \<mapsto> y) = (m(7 \<mapsto> y))(8 \<mapsto> x)" for m :: "int64 \<rightharpoonup> 'a"
  by (rule fun_upd_twist) simp

section \<open>The claims\<close>

text \<open>
  C1. For both loaders, a page fetch that returns an error stops the load, and the error
  is recorded and returned with the completion flag left unset. The claim goes on: the
  loader's mutex is released, so that a later call to the same ensure-load function
  fetches again from page 1. The \<open>return\<close> inside the loop leaves the function before
  \<open>Unlock\<close>: on the failing client the teams load returns the error with its mutex still
  held, and the next call blocks in \<open>Lock\<close>; the same happens to the load of the
  repositories of team 8, whose listing fails.
\<close>

theorem failed_load_keeps_mutex_locked:
  "(case pgInitializeLocalDataTeams failingClient pgInitialState of
      Returns (s', e) \<Rightarrow>
        e = Some (OtherError ''teams: 502'') \<and>
        pgMutexInitializeLocalDataTeams s' = Locked \<and>
        \<not> pgDoneGetAllTeams s' \<and>
        pgInitializeLocalDataTeams failingClient s' = Blocks
    | _ \<Rightarrow> False)
  \<and> (case andThen (pgInitializeLocalDataTeams twoTeamsClient pgInitialState)
             (pgInitializeLocalDataTeamRepos twoTeamsClient 8) of
      Returns (s', e) \<Rightarrow>
        e = Some (OtherError ''repos: 502'') \<and>
        pgMutexInitializeLocalDataTeamRepos s' 8 = Some Locked \<and>
        \<not> doneTeamRepos s' 8 \<and>
        pgInitializeLocalDataTeamRepos twoTeamsClient 8 s' = Blocks
    | _ \<Rightarrow> False)"
  by (simp add: eval_defs)

text \<open>
  C2. The claim: a lookup of a repository first drives the teams loader, so that the
  team's mutex and flag are registered, and does not fault even as the first call of the
  process or for a team that is not in the organization. \<open>pgGetRepoByTeamIDAndRepoName\<close>
  calls \<open>pgInitializeLocalDataTeamRepos\<close> only, which calls \<open>Lock\<close> on the pointer it
  reads from the map of mutexes: with any client, the lookup for team 42 panics on the
  nil pointer as the first call, and also after the teams 7 and 8 have been loaded.
\<close>

theorem repo_lookup_of_unregistered_team_panics:
  "pgGetRepoByTeamIDAndRepoName client 42 ''api'' pgInitialState = Panics
   \<and> andThen (pgInitializeLocalDataTeams twoTeamsClient pgInitialState)
        (pgGetRepoByTeamIDAndRepoName client 42 ''api'') = Panics"
  by (simp add: eval_defs)




text \<open>
  C4. After a teams load that succeeded (the call ran the load and returned nil), when
  the identifiers and the slugs of the fetched teams are unique: for every fetched team
  \<open>T\<close>, the lookup by \<open>T\<close>'s identifier and the lookup by \<open>T\<close>'s slug return \<open>T\<close>
  with a nil error, both the lookup that triggered the load and any later one; and the
  two indices, filled from empty in that one pass, hold the same set of teams, the
  fetched ones.
\<close>

theorem teams_indices_agree_after_load:
  assumes "pgInitializeLocalDataTeams c s = Returns (s', None)"
    and "\<not> pgDoneGetAllTeams s"
    and "distinct (map GetID (fetchedTeams c s s'))"
    and "distinct (map GetSlug (fetchedTeams c s s'))"
    and "T \<in> set (fetchedTeams c s s')"
  shows "pgGetTeamByTeamId c' (GetID T) s' =
      Returns (s', Some T, teams_resp (pgGetAllTeamsResponse s'), None)
    \<and> pgGetTeamByTeamSlug c' (GetSlug T) s' =
      Returns (s', Some T, teams_resp (pgGetAllTeamsResponse s'), None)
    \<and> pgGetTeamByTeamId c (GetID T) s =
      Returns (s', Some T, teams_resp (pgGetAllTeamsResponse s'), None)
    \<and> pgGetTeamByTeamSlug c (GetSlug T) s =
      Returns (s', Some T, teams_resp (pgGetAllTeamsResponse s'), None)
    \<and> (pgTeamsByTeamId s = Map.empty \<and> pgTeamsByTeamSlug s = Map.empty \<longrightarrow>
        ran (pgTeamsByTeamId s') = set (fetchedTeams c s s') \<and>
        ran (pgTeamsByTeamSlug s') = set (fetchedTeams c s s'))"
  using assms(1)
proof (cases rule: pgInitializeLocalDataTeams_cases)
  case already
  with assms(2) show ?thesis by simp
next
  case (failed n)
  then show ?thesis by simp
next
  case (loaded n)
  have log: "pgFetchLog s' = pgFetchLog s @ map teamsFetch [1..n]"
    using loaded(8) by (simp add: registerTeams_eq)
  note F = fetchedTeams_after_load [OF log, of c]
  have byId: "pgTeamsByTeamId s' = indexAll GetID (\<lambda>t. t) (teamsOfPages c 1 n) (pgTeamsByTeamId s)"
    and bySlug: "pgTeamsByTeamSlug s' =
      indexAll GetSlug (\<lambda>t. t) (teamsOfPages c 1 n) (pgTeamsByTeamSlug s)"
    using loaded(8) by (simp_all add: registerTeams_eq)
  have idT: "pgTeamsByTeamId s' (GetID T) = Some T"
    unfolding byId using assms(3,5) unfolding F by (rule indexAll_distinct)
  have slugT: "pgTeamsByTeamSlug s' (GetSlug T) = Some T"
    unfolding bySlug using assms(4,5) unfolding F by (rule indexAll_distinct)
  note post = pgInitializeLocalDataTeams_nil [OF assms(1)]
  from post have again: "pgInitializeLocalDataTeams c' s' = Returns (s', None)"
    by (simp add: pgInitializeLocalDataTeams_done)
  have l1: "pgGetTeamByTeamId c' (GetID T) s' =
      Returns (s', Some T, teams_resp (pgGetAllTeamsResponse s'), None)"
    using again idT post by (simp add: pgGetTeamByTeamId_def)
  have l2: "pgGetTeamByTeamSlug c' (GetSlug T) s' =
      Returns (s', Some T, teams_resp (pgGetAllTeamsResponse s'), None)"
    using again slugT post by (simp add: pgGetTeamByTeamSlug_def)
  have l3: "pgGetTeamByTeamId c (GetID T) s =
      Returns (s', Some T, teams_resp (pgGetAllTeamsResponse s'), None)"
    using assms(1) idT post by (simp add: pgGetTeamByTeamId_def)
  have l4: "pgGetTeamByTeamSlug c (GetSlug T) s =
      Returns (s', Some T, teams_resp (pgGetAllTeamsResponse s'), None)"
    using assms(1) slugT post by (simp add: pgGetTeamByTeamSlug_def)
  have l5: "pgTeamsByTeamId s = Map.empty \<and> pgTeamsByTeamSlug s = Map.empty \<longrightarrow>
        ran (pgTeamsByTeamId s') = set (fetchedTeams c s s') \<and>
        ran (pgTeamsByTeamSlug s') = set (fetchedTeams c s s')"
    using assms(3,4) unfolding F byId bySlug by (auto simp: indexAll_ran)
  from l1 l2 l3 l4 l5 show ?thesis by blast
qed

theorem teams_indices_agree_after_load_witness:
  "pgInitializeLocalDataTeams twoTeamsClient pgInitialState = Returns (teamsLoadedState, None) \<and>
   \<not> pgDoneGetAllTeams pgInitialState \<and>
   fetchedTeams twoTeamsClient pgInitialState teamsLoadedState = [team7, team8] \<and>
   distinct (map GetID [team7, team8]) \<and>
   distinct (map GetSlug [team7, team8]) \<and>
   pgGetTeamByTeamId failingClient 8 teamsLoadedState =
     Returns (teamsLoadedState, Some team8, Some (Response 10), None) \<and>
   pgGetTeamByTeamSlug failingClient ''search'' teamsLoadedState =
     Returns (teamsLoadedState, Some team8, Some (Response 10), None) \<and>
   pgGetTeamByTeamId twoTeamsClient 8 pgInitialState =
     Returns (teamsLoadedState, Some team8, Some (Response 10), None) \<and>
   pgGetTeamByTeamSlug twoTeamsClient ''search'' pgInitialState =
     Returns (teamsLoadedState, Some team8, Some (Response 10), None) \<and>
   ran (pgTeamsByTeamId teamsLoadedState) = {team7, team8} \<and>
   ran (pgTeamsByTeamSlug teamsLoadedState) = {team7, team8}"
proof -
  have run: "pgInitializeLocalDataTeams twoTeamsClient pgInitialState =
      Returns (teamsLoadedState, None)"
    by (simp add: eval_defs)
  have fetched: "fetchedTeams twoTeamsClient pgInitialState teamsLoadedState = [team7, team8]"
    by (simp add: fetchedTeams_def teamsReturnedTo_def eval_defs)
  have ids: "distinct (map GetID [team7, team8])"
    and slugs: "distinct (map GetSlug [team7, team8])"
    by (simp_all add: eval_defs)
  have empty: "pgTeamsByTeamId pgInitialState = Map.empty \<and>
      pgTeamsByTeamSlug pgInitialState = Map.empty"
    and fresh: "\<not> pgDoneGetAllTeams pgInitialState"
    by (simp_all add: pgInitialState_def)
  from teams_indices_agree_after_load [of twoTeamsClient pgInitialState teamsLoadedState team8
      failingClient, OF run fresh] fetched ids slugs empty run fresh
  show ?thesis
    by (simp add: GetID_def GetSlug_def team8_def teamsLoadedState_def)
qed

text \<open>
  C5. The claim: after a successful load, a lookup of a key that is absent from the index
  returns the synthesized not-found error, never nil and never an error of the transport.
  The repositories of team 7 have been loaded, and \<open>web\<close> is not among them: the lookup
  of \<open>web\<close> in team 7 returns not-found. Once the load of the repositories of team 8 has
  failed, the same lookup returns the error of the transport that team 8's request
  returned, read from the holder that the loads of all teams share.
\<close>

theorem absent_repo_after_other_teams_failure:
  "andThen (pgInitializeLocalDataTeams twoTeamsClient pgInitialState)
     (pgInitializeLocalDataTeamRepos twoTeamsClient 7) = Returns (reposLoadedState, None) \<and>
   doneTeamRepos reposLoadedState 7 \<and>
   loadRepo reposLoadedState 7 ''web'' = None \<and>
   resultOf (pgGetRepoByTeamIDAndRepoName twoTeamsClient 7 ''web'' reposLoadedState) =
     Some (None, Some (Response 17), Some (ErrorResponse 404)) \<and>
   resultOf (andThen (pgInitializeLocalDataTeamRepos twoTeamsClient 8 reposLoadedState)
     (pgGetRepoByTeamIDAndRepoName twoTeamsClient 7 ''web'')) =
     Some (None, Some (Response 18), Some (OtherError ''repos: 502''))"
  by (simp add: eval_defs upd_8_7)

text \<open>
  C5, as the code has it. A lookup of an absent key returns the synthesized not-found
  error (a \<open>github.ErrorResponse\<close> with status 404) when the error stored in the holder
  it reads is nil, and the stored error otherwise. The calls run one after another, from
  the initial state. The team lookups return not-found for an absent key at any time
  after a successful teams load, whatever calls came in between, and so does the lookup
  that triggered the successful load. The repository lookup reads the holder shared by
  the loads of all teams: with the repositories of its team loaded and the name absent,
  it returns not-found while the shared holder's error is nil, as it is in the lookup
  that ran the team's load and right after it, and otherwise the error stored there;
  right after a load of any team's repositories has returned an error, that is the
  error it returns.
\<close>

theorem absent_key_is_not_found:
  assumes "doCalls ks pgInitialState = Returns s" and "doCalls ks' s = Returns s'"
  shows "(pgDoneGetAllTeams s \<and> pgTeamsByTeamId s k = None \<longrightarrow>
      pgGetTeamByTeamId c k s' =
        Returns (s', None, teams_resp (pgGetAllTeamsResponse s), Some (ErrorResponse 404)))
   \<and> (pgDoneGetAllTeams s \<and> pgTeamsByTeamSlug s slug = None \<longrightarrow>
      pgGetTeamByTeamSlug c slug s' =
        Returns (s', None, teams_resp (pgGetAllTeamsResponse s), Some (ErrorResponse 404)))
   \<and> (doneTeamRepos s t \<and> loadRepo s t repoName = None \<longrightarrow>
      pgGetRepoByTeamIDAndRepoName c t repoName s' =
        Returns (s', None, repos_resp (pgGetAllTeamReposResponse s'),
          if repos_err (pgGetAllTeamReposResponse s') = None then Some (ErrorResponse 404)
          else repos_err (pgGetAllTeamReposResponse s')))
   \<and> (doneTeamRepos s t \<and> loadRepo s t repoName = None \<and>
       pgInitializeLocalDataTeamRepos c' u s = Returns (s1, Some e) \<longrightarrow>
      pgGetRepoByTeamIDAndRepoName c t repoName s1 =
        Returns (s1, None, repos_resp (pgGetAllTeamReposResponse s1), Some e))
   \<and> (pgInitializeLocalDataTeams c' s = Returns (s2, None) \<and> pgTeamsByTeamId s2 k = None \<longrightarrow>
      pgGetTeamByTeamId c' k s =
        Returns (s2, None, teams_resp (pgGetAllTeamsResponse s2), Some (ErrorResponse 404)))
   \<and> (pgInitializeLocalDataTeams c' s = Returns (s2, None) \<and>
       pgTeamsByTeamSlug s2 slug = None \<longrightarrow>
      pgGetTeamByTeamSlug c' slug s =
        Returns (s2, None, teams_resp (pgGetAllTeamsResponse s2), Some (ErrorResponse 404)))
   \<and> (pgInitializeLocalDataTeamRepos c' t s = Returns (s3, None) \<and>
       loadRepo s3 t repoName = None \<longrightarrow>
      pgGetRepoByTeamIDAndRepoName c' t repoName s =
        Returns (s3, None, repos_resp (pgGetAllTeamReposResponse s3),
                 Some (ErrorResponse 404)) \<and>
      pgGetRepoByTeamIDAndRepoName c t repoName s3 =
        Returns (s3, None, repos_resp (pgGetAllTeamReposResponse s3),
                 Some (ErrorResponse 404)))"
proof -
  from assms(1) have inv: "pgInvariant s" by (rule pgInvariant_reachable)
  from assms(2) inv have inv': "pgInvariant s'" by (rule pgInvariant_doCalls)
  have teams: "pgInitializeLocalDataTeams c s' = Returns (s', None) \<and>
      pgGetAllTeamsResponse s' = pgGetAllTeamsResponse s \<and>
      pgTeamsByTeamId s' = pgTeamsByTeamId s \<and>
      pgTeamsByTeamSlug s' = pgTeamsByTeamSlug s" if d: "pgDoneGetAllTeams s"
  proof -
    note keep = teams_settled_doCalls [OF assms(2) inv d]
    then have d': "pgDoneGetAllTeams s'" by simp
    with inv' have "pgMutexInitializeLocalDataTeams s' = Unlocked"
      "teams_err (pgGetAllTeamsResponse s') = None"
      by (simp_all add: pgInvariant_def)
    with d' have "pgInitializeLocalDataTeams c s' = Returns (s', None)"
      by (simp add: pgInitializeLocalDataTeams_done)
    with keep show ?thesis by simp
  qed
  have byId: "pgGetTeamByTeamId c k s' =
      Returns (s', None, teams_resp (pgGetAllTeamsResponse s), Some (ErrorResponse 404))"
    if "pgDoneGetAllTeams s" and "pgTeamsByTeamId s k = None"
    using teams [OF that(1)] that(2) inv' teams_settled_doCalls [OF assms(2) inv that(1)]
    by (simp add: pgGetTeamByTeamId_def notFoundUnlessError_def StatusNotFound_def
        pgInvariant_def)
  have bySlug: "pgGetTeamByTeamSlug c slug s' =
      Returns (s', None, teams_resp (pgGetAllTeamsResponse s), Some (ErrorResponse 404))"
    if "pgDoneGetAllTeams s" and "pgTeamsByTeamSlug s slug = None"
    using teams [OF that(1)] that(2) inv' teams_settled_doCalls [OF assms(2) inv that(1)]
    by (simp add: pgGetTeamByTeamSlug_def notFoundUnlessError_def StatusNotFound_def
        pgInvariant_def)
  have lookup: "pgGetRepoByTeamIDAndRepoName c t repoName x =
      Returns (x, None, repos_resp (pgGetAllTeamReposResponse x),
          if repos_err (pgGetAllTeamReposResponse x) = None then Some (ErrorResponse 404)
          else repos_err (pgGetAllTeamReposResponse x))"
    if "pgInvariant x" and d: "doneTeamRepos x t" and "loadRepo x t repoName = None" for x
  proof -
    from that(1) d have "pgMutexInitializeLocalDataTeamRepos x t = Some Unlocked"
      by (simp add: pgInvariant_def)
    from pgInitializeLocalDataTeamRepos_done [OF this d, of c] that(3) show ?thesis
      by (cases "repos_err (pgGetAllTeamReposResponse x)")
        (simp_all add: pgGetRepoByTeamIDAndRepoName_def notFoundUnlessError_def
          StatusNotFound_def)
  qed
  have later: "pgGetRepoByTeamIDAndRepoName c t repoName s' =
      Returns (s', None, repos_resp (pgGetAllTeamReposResponse s'),
          if repos_err (pgGetAllTeamReposResponse s') = None then Some (ErrorResponse 404)
          else repos_err (pgGetAllTeamReposResponse s'))"
    if d: "doneTeamRepos s t" and a: "loadRepo s t repoName = None"
  proof -
    note keep = repos_settled_doCalls [OF assms(2) inv d]
    with a have "loadRepo s' t repoName = None" by (simp add: loadRepo_def)
    with keep inv' show ?thesis by (simp add: lookup)
  qed
  have other: "pgGetRepoByTeamIDAndRepoName c t repoName s1 =
      Returns (s1, None, repos_resp (pgGetAllTeamReposResponse s1), Some e)"
    if d: "doneTeamRepos s t" and a: "loadRepo s t repoName = None"
      and r: "pgInitializeLocalDataTeamRepos c' u s = Returns (s1, Some e)"
  proof -
    from r have step: "doCall (InitializeLocalDataTeamRepos c' u) s = Returns s1"
      by (simp add: stateAfter_def)
    from step inv have inv1: "pgInvariant s1" by (rule pgInvariant_doCall)
    note keep = repos_settled_doCall [OF step inv d]
    with a have "loadRepo s1 t repoName = None" by (simp add: loadRepo_def)
    with keep inv1 pgInitializeLocalDataTeamRepos_returns_stored [OF r, symmetric]
    show ?thesis
      by (simp add: lookup)
  qed
  have trigId: "pgGetTeamByTeamId c' k s =
      Returns (s2, None, teams_resp (pgGetAllTeamsResponse s2), Some (ErrorResponse 404))"
    if r: "pgInitializeLocalDataTeams c' s = Returns (s2, None)" and "pgTeamsByTeamId s2 k = None"
    using that pgInitializeLocalDataTeams_nil [OF r]
    by (simp add: pgGetTeamByTeamId_def notFoundUnlessError_def StatusNotFound_def)
  have trigSlug: "pgGetTeamByTeamSlug c' slug s =
      Returns (s2, None, teams_resp (pgGetAllTeamsResponse s2), Some (ErrorResponse 404))"
    if r: "pgInitializeLocalDataTeams c' s = Returns (s2, None)"
      and "pgTeamsByTeamSlug s2 slug = None"
    using that pgInitializeLocalDataTeams_nil [OF r]
    by (simp add: pgGetTeamByTeamSlug_def notFoundUnlessError_def StatusNotFound_def)
  have trigRepo: "pgGetRepoByTeamIDAndRepoName c' t repoName s =
        Returns (s3, None, repos_resp (pgGetAllTeamReposResponse s3),
                 Some (ErrorResponse 404)) \<and>
      pgGetRepoByTeamIDAndRepoName c t repoName s3 =
        Returns (s3, None, repos_resp (pgGetAllTeamReposResponse s3),
                 Some (ErrorResponse 404))"
    if r: "pgInitializeLocalDataTeamRepos c' t s = Returns (s3, None)"
      and a: "loadRepo s3 t repoName = None"
  proof -
    note post = pgInitializeLocalDataTeamRepos_nil [OF r]
    from post have again: "pgInitializeLocalDataTeamRepos c t s3 = Returns (s3, None)"
      by (simp add: pgInitializeLocalDataTeamRepos_done)
    from r a post again show ?thesis
      by (simp add: pgGetRepoByTeamIDAndRepoName_def notFoundUnlessError_def
          StatusNotFound_def)
  qed
  from byId bySlug later other trigId trigSlug trigRepo show ?thesis by blast
qed

theorem absent_key_is_not_found_witness:
  "doCalls [GetTeamByTeamSlug twoTeamsClient ''platform'',
            GetRepoByTeamIDAndRepoName twoTeamsClient 7 ''api''] pgInitialState =
     Returns reposLoadedState \<and>
   doCalls [GetRepoByTeamIDAndRepoName twoTeamsClient 8 ''web''] reposLoadedState =
     Returns team8FailedState \<and>
   pgDoneGetAllTeams reposLoadedState \<and>
   pgTeamsByTeamId reposLoadedState 42 = None \<and>
   pgTeamsByTeamSlug reposLoadedState ''billing'' = None \<and>
   pgGetTeamByTeamId failingClient 42 team8FailedState =
     Returns (team8FailedState, None, Some (Response 10), Some (ErrorResponse 404)) \<and>
   pgGetTeamByTeamSlug failingClient ''billing'' team8FailedState =
     Returns (team8FailedState, None, Some (Response 10), Some (ErrorResponse 404)) \<and>
   doneTeamRepos reposLoadedState 7 \<and>
   loadRepo reposLoadedState 7 ''web'' = None \<and>
   pgInitializeLocalDataTeamRepos twoTeamsClient 8 reposLoadedState =
     Returns (team8FailedState, Some (OtherError ''repos: 502'')) \<and>
   pgGetRepoByTeamIDAndRepoName failingClient 7 ''web'' team8FailedState =
     Returns (team8FailedState, None, Some (Response 18), Some (OtherError ''repos: 502'')) \<and>
   doCalls [] pgInitialState = Returns pgInitialState \<and>
   pgInitializeLocalDataTeams twoTeamsClient pgInitialState =
     Returns (teamsLoadedState, None) \<and>
   pgTeamsByTeamId teamsLoadedState 42 = None \<and>
   pgTeamsByTeamSlug teamsLoadedState ''billing'' = None \<and>
   pgGetTeamByTeamId twoTeamsClient 42 pgInitialState =
     Returns (teamsLoadedState, None, Some (Response 10), Some (ErrorResponse 404)) \<and>
   pgGetTeamByTeamSlug twoTeamsClient ''billing'' pgInitialState =
     Returns (teamsLoadedState, None, Some (Response 10), Some (ErrorResponse 404)) \<and>
   doCalls [GetTeamByTeamSlug twoTeamsClient ''platform''] pgInitialState =
     Returns teamsLoadedState \<and>
   pgInitializeLocalDataTeamRepos twoTeamsClient 7 teamsLoadedState =
     Returns (reposLoadedState, None) \<and>
   pgGetRepoByTeamIDAndRepoName twoTeamsClient 7 ''web'' teamsLoadedState =
     Returns (reposLoadedState, None, Some (Response 17), Some (ErrorResponse 404)) \<and>
   pgGetRepoByTeamIDAndRepoName failingClient 7 ''web'' reposLoadedState =
     Returns (reposLoadedState, None, Some (Response 17), Some (ErrorResponse 404))"
  using absent_key_is_not_found
    [of "[GetTeamByTeamSlug twoTeamsClient ''platform'',
          GetRepoByTeamIDAndRepoName twoTeamsClient 7 ''api'']" reposLoadedState
      "[GetRepoByTeamIDAndRepoName twoTeamsClient 8 ''web'']" team8FailedState
      42 failingClient "''billing''" 7 "''web''" twoTeamsClient 8 team8FailedState
      "OtherError ''repos: 502''"]
    absent_key_is_not_found
    [of "[]" pgInitialState "[]" pgInitialState 42 failingClient "''billing''" 7 "''web''"
      twoTeamsClient 8 pgInitialState "OtherError ''repos: 502''" teamsLoadedState]
    absent_key_is_not_found
    [of "[GetTeamByTeamSlug twoTeamsClient ''platform'']" teamsLoadedState "[]"
      teamsLoadedState 42 failingClient "''billing''" 7 "''web''" twoTeamsClient 8
      teamsLoadedState "OtherError ''repos: 502''" teamsLoadedState reposLoadedState]
  by (simp add: eval_defs stateAfter_def team8FailedState_def upd_8_7)

text \<open>
  C6. When some page of the teams listing returns fewer than 100 items, the load loop
  terminates: it requests the pages 1, 2, \<dots> with page size 100, one request each, and
  stops at the first page \<open>n\<close> with fewer than 100 items, so after exactly the \<open>n\<close>
  requests of one full pagination; and every team returned on one of these pages is in
  the two indices under its identifier and its slug (the entry is a fetched team with
  that key; the team itself when keys are unique, see C4). The loop is entered with the
  mutex free and the flag unset. The client is taken to return no items together with an
  error, as \<open>ListTeams\<close> of go-github does, so that a failed request counts as a page
  of zero items.
\<close>

theorem teams_load_stops_at_first_short_page:
  assumes "pgMutexInitializeLocalDataTeams s = Unlocked" and "\<not> pgDoneGetAllTeams s"
    and "\<exists>m\<ge>1. length (fst (teamsPage c m)) < 100"
    and "\<forall>p\<ge>1. snd (snd (teamsPage c p)) \<noteq> None \<longrightarrow> fst (teamsPage c p) = []"
  shows "\<exists>n s' e.
      1 \<le> n \<and> length (fst (teamsPage c n)) < 100 \<and>
      (\<forall>q. 1 \<le> q \<and> q < n \<longrightarrow> 100 \<le> length (fst (teamsPage c q))) \<and>
      pgInitializeLocalDataTeams c s = Returns (s', e) \<and>
      pgFetchLog s' =
        pgFetchLog s @
        map (\<lambda>p. FetchTeams pgGithubOrgName \<lparr>Page = p, PerPage = 100\<rparr>) [1..n] \<and>
      length (pgFetchLog s') = length (pgFetchLog s) + nat n \<and>
      (\<forall>T\<in>set (teamsOfPages c 1 n).
         (\<exists>T1\<in>set (teamsOfPages c 1 n).
            GetID T1 = GetID T \<and> pgTeamsByTeamId s' (GetID T) = Some T1) \<and>
         (\<exists>T2\<in>set (teamsOfPages c 1 n).
            GetSlug T2 = GetSlug T \<and> pgTeamsByTeamSlug s' (GetSlug T) = Some T2))"
proof -
  from assms(3) obtain n where n: "1 \<le> n" "length (fst (teamsPage c n)) < 100"
    "\<forall>q. 1 \<le> q \<and> q < n \<longrightarrow> \<not> length (fst (teamsPage c q)) < 100"
    by (rule first_page_with)
  have full: "\<forall>q. 1 \<le> q \<and> q < n \<longrightarrow> 100 \<le> length (fst (teamsPage c q))"
    using n(3) by (simp add: not_less)
  have cont: "\<forall>q. 1 \<le> q \<and> q < n \<longrightarrow> continuesTeams c q"
  proof (intro allI impI)
    fix q assume q: "1 \<le> q \<and> q < n"
    with full have len: "100 \<le> length (fst (teamsPage c q))" by blast
    then have "fst (teamsPage c q) \<noteq> []" by auto
    with assms(4) q have "snd (snd (teamsPage c q)) = None" by blast
    with len show "continuesTeams c q" by (simp add: continuesTeams_def)
  qed
  let ?F = "teamsOfPages c 1 n"
  let ?log = "pgFetchLog s @ map teamsFetch [1..n]"
  have fetches: "map teamsFetch [1..n] =
      map (\<lambda>p. FetchTeams pgGithubOrgName \<lparr>Page = p, PerPage = 100\<rparr>) [1..n]"
    by (simp add: teamsFetch_def)
  have "\<exists>s' e. pgInitializeLocalDataTeams c s = Returns (s', e) \<and> pgFetchLog s' = ?log \<and>
      pgTeamsByTeamId s' = indexAll GetID (\<lambda>t. t) ?F (pgTeamsByTeamId s) \<and>
      pgTeamsByTeamSlug s' = indexAll GetSlug (\<lambda>t. t) ?F (pgTeamsByTeamSlug s)"
  proof (cases "snd (snd (teamsPage c n)) = None")
    case True
    from pgInitializeLocalDataTeams_succeeds [OF assms(1,2) n(1) cont True n(2)]
    show ?thesis by (simp add: registerTeams_eq)
  next
    case False
    with assms(4) n(1) have "fst (teamsPage c n) = []" by blast
    with n(1) have same: "teamsOfPages c 1 (n - 1) = ?F"
      by (simp add: teamsOfPages_snoc)
    from pgInitializeLocalDataTeams_fails [OF assms(1,2) n(1) cont False]
    show ?thesis by (simp add: registerTeams_eq same)
  qed
  then obtain s' e where run: "pgInitializeLocalDataTeams c s = Returns (s', e)"
    and log: "pgFetchLog s' = ?log"
    and byId: "pgTeamsByTeamId s' = indexAll GetID (\<lambda>t. t) ?F (pgTeamsByTeamId s)"
    and bySlug: "pgTeamsByTeamSlug s' = indexAll GetSlug (\<lambda>t. t) ?F (pgTeamsByTeamSlug s)"
    by blast
  have count: "length (pgFetchLog s') = length (pgFetchLog s) + nat n"
    using n(1) by (simp add: log)
  have indexed: "\<forall>T\<in>set ?F.
         (\<exists>T1\<in>set ?F. GetID T1 = GetID T \<and> pgTeamsByTeamId s' (GetID T) = Some T1) \<and>
         (\<exists>T2\<in>set ?F. GetSlug T2 = GetSlug T \<and> pgTeamsByTeamSlug s' (GetSlug T) = Some T2)"
  proof (intro ballI conjI)
    fix T assume T: "T \<in> set ?F"
    from indexAll_mem [OF T, of GetID "\<lambda>t. t" "pgTeamsByTeamId s"]
    show "\<exists>T1\<in>set ?F. GetID T1 = GetID T \<and> pgTeamsByTeamId s' (GetID T) = Some T1"
      unfolding byId .
    from indexAll_mem [OF T, of GetSlug "\<lambda>t. t" "pgTeamsByTeamSlug s"]
    show "\<exists>T2\<in>set ?F. GetSlug T2 = GetSlug T \<and> pgTeamsByTeamSlug s' (GetSlug T) = Some T2"
      unfolding bySlug .
  qed
  from n(1,2) full run log count indexed show ?thesis
    unfolding fetches by blast
qed


theorem teams_load_stops_at_first_short_page_witness:
  "pgMutexInitializeLocalDataTeams pgInitialState = Unlocked \<and>
   \<not> pgDoneGetAllTeams pgInitialState \<and>
   length (fst (teamsPage pagedClient 1)) = 100 \<and>
   length (fst (teamsPage pagedClient 2)) = 2 \<and>
   (\<forall>p. snd (snd (teamsPage pagedClient p)) = None) \<and>
   (\<exists>n s' e.
      1 \<le> n \<and> length (fst (teamsPage pagedClient n)) < 100 \<and>
      (\<forall>q. 1 \<le> q \<and> q < n \<longrightarrow> 100 \<le> length (fst (teamsPage pagedClient q))) \<and>
      pgInitializeLocalDataTeams pagedClient pgInitialState = Returns (s', e) \<and>
      pgFetchLog s' =
        pgFetchLog pgInitialState @
        map (\<lambda>p. FetchTeams pgGithubOrgName \<lparr>Page = p, PerPage = 100\<rparr>) [1..n] \<and>
      length (pgFetchLog s') = length (pgFetchLog pgInitialState) + nat n \<and>
      (\<forall>T\<in>set (teamsOfPages pagedClient 1 n).
         (\<exists>T1\<in>set (teamsOfPages pagedClient 1 n).
            GetID T1 = GetID T \<and> pgTeamsByTeamId s' (GetID T) = Some T1) \<and>
         (\<exists>T2\<in>set (teamsOfPages pagedClient 1 n).
            GetSlug T2 = GetSlug T \<and> pgTeamsByTeamSlug s' (GetSlug T) = Some T2)))"
proof -
  have h1: "pgMutexInitializeLocalDataTeams pgInitialState = Unlocked"
    and h2: "\<not> pgDoneGetAllTeams pgInitialState"
    by (simp_all add: pgInitialState_def)
  have p1: "length (fst (teamsPage pagedClient 1)) = 100"
    and p2: "length (fst (teamsPage pagedClient 2)) = 2"
    by (simp_all add: teamsPage_def pagedClient_def hundredTeams_def)
  have noerr: "\<forall>p. snd (snd (teamsPage pagedClient p)) = None"
    by (simp add: teamsPage_def pagedClient_def)
  from p2 have h3: "\<exists>m\<ge>1. length (fst (teamsPage pagedClient m)) < 100"
    by (intro exI [of _ 2]) simp
  from noerr have h4: "\<forall>p\<ge>1. snd (snd (teamsPage pagedClient p)) \<noteq> None \<longrightarrow>
      fst (teamsPage pagedClient p) = []"
    by simp
  from teams_load_stops_at_first_short_page [OF h1 h2 h3 h4] h1 h2 p1 p2 noerr
  show ?thesis by blast
qed

text \<open>
  C7. The claim: once a load has completed, every later call to the ensure-load function
  fetches nothing, changes no index and returns the stored error of the last load, which
  is nil after success. The repositories of team 7 have been loaded with a nil error and
  the flag of team 7 is set. Once the load of the repositories of team 8 has failed, the
  ensure-load call for team 7 returns the error of team 8's request.
\<close>

theorem completed_load_returns_other_teams_error:
  "andThen (pgInitializeLocalDataTeams twoTeamsClient pgInitialState)
     (pgInitializeLocalDataTeamRepos twoTeamsClient 7) = Returns (reposLoadedState, None) \<and>
   doneTeamRepos reposLoadedState 7 \<and>
   resultOf (andThen (pgInitializeLocalDataTeamRepos twoTeamsClient 8 reposLoadedState)
     (pgInitializeLocalDataTeamRepos twoTeamsClient 7)) =
     Some (Some (OtherError ''repos: 502''))"
  by (simp add: eval_defs upd_8_7)

text \<open>
  C7, as the code has it. Each collection is fetched at most once, but what a call returns
  after a completed children load is not always nil. The calls run one after another, from
  the initial state. Once a loader's completion flag is set, whatever calls follow, the
  flag stays set, the loader's index stays as it is and no further request for that
  collection is sent; a call to the ensure-load function then returns the state unchanged,
  so it sends no request and changes no index, together with the error stored in the
  loader's holder. For the teams that error is nil. For the repositories of a team the
  holder is the one shared by all teams: the stored error is nil right after the team's
  own load has completed, and right after a later load of any team's repositories it is
  the error that load returned, non-nil if it failed.
\<close>

theorem completed_load_is_not_repeated:
  assumes "doCalls ks pgInitialState = Returns s" and "doCalls ks' s = Returns s'"
  shows "(pgDoneGetAllTeams s \<longrightarrow>
      pgDoneGetAllTeams s' \<and>
      pgTeamsByTeamId s' = pgTeamsByTeamId s \<and>
      pgTeamsByTeamSlug s' = pgTeamsByTeamSlug s \<and>
      teamsFetches (pgFetchLog s') = teamsFetches (pgFetchLog s) \<and>
      pgInitializeLocalDataTeams c s' = Returns (s', None))
   \<and> (doneTeamRepos s t \<longrightarrow>
      doneTeamRepos s' t \<and>
      pgReposByTeamIdAndRepoName s' t = pgReposByTeamIdAndRepoName s t \<and>
      teamReposFetches t (pgFetchLog s') = teamReposFetches t (pgFetchLog s) \<and>
      pgInitializeLocalDataTeamRepos c t s' =
        Returns (s', repos_err (pgGetAllTeamReposResponse s')))
   \<and> (doneTeamRepos s t \<and> pgInitializeLocalDataTeamRepos c' u s = Returns (s1, e) \<longrightarrow>
      pgInitializeLocalDataTeamRepos c t s1 = Returns (s1, e))
   \<and> (\<not> doneTeamRepos s t \<and> pgInitializeLocalDataTeamRepos c' t s = Returns (s1, e) \<and>
       doneTeamRepos s1 t \<longrightarrow>
      e = None \<and> pgInitializeLocalDataTeamRepos c t s1 = Returns (s1, None))
   \<and> (\<not> pgDoneGetAllTeams s \<and> pgInitializeLocalDataTeams c' s = Returns (s2, e2) \<and>
       pgDoneGetAllTeams s2 \<longrightarrow>
      e2 = None \<and> pgInitializeLocalDataTeams c s2 = Returns (s2, None))"
proof -
  from assms(1) have inv: "pgInvariant s" by (rule pgInvariant_reachable)
  from assms(2) inv have inv': "pgInvariant s'" by (rule pgInvariant_doCalls)
  have teams: "pgDoneGetAllTeams s' \<and>
      pgTeamsByTeamId s' = pgTeamsByTeamId s \<and>
      pgTeamsByTeamSlug s' = pgTeamsByTeamSlug s \<and>
      teamsFetches (pgFetchLog s') = teamsFetches (pgFetchLog s) \<and>
      pgInitializeLocalDataTeams c s' = Returns (s', None)" if d: "pgDoneGetAllTeams s"
  proof -
    note keep = teams_settled_doCalls [OF assms(2) inv d]
    then have d': "pgDoneGetAllTeams s'" by simp
    with inv' have "pgMutexInitializeLocalDataTeams s' = Unlocked"
      "teams_err (pgGetAllTeamsResponse s') = None"
      by (simp_all add: pgInvariant_def)
    with d' have "pgInitializeLocalDataTeams c s' = Returns (s', None)"
      by (simp add: pgInitializeLocalDataTeams_done)
    with keep show ?thesis by simp
  qed
  have repos: "doneTeamRepos s' t \<and>
      pgReposByTeamIdAndRepoName s' t = pgReposByTeamIdAndRepoName s t \<and>
      teamReposFetches t (pgFetchLog s') = teamReposFetches t (pgFetchLog s) \<and>
      pgInitializeLocalDataTeamRepos c t s' =
        Returns (s', repos_err (pgGetAllTeamReposResponse s'))" if d: "doneTeamRepos s t"
  proof -
    note keep = repos_settled_doCalls [OF assms(2) inv d]
    then have d': "doneTeamRepos s' t" by simp
    with inv' have "pgMutexInitializeLocalDataTeamRepos s' t = Some Unlocked"
      by (simp add: pgInvariant_def)
    from pgInitializeLocalDataTeamRepos_done [OF this d'] keep show ?thesis by simp
  qed
  have other: "pgInitializeLocalDataTeamRepos c t s1 = Returns (s1, e)"
    if d: "doneTeamRepos s t" and r: "pgInitializeLocalDataTeamRepos c' u s = Returns (s1, e)"
  proof -
    from r have step: "doCall (InitializeLocalDataTeamRepos c' u) s = Returns s1"
      by (simp add: stateAfter_def)
    from step inv have inv1: "pgInvariant s1" by (rule pgInvariant_doCall)
    from repos_settled_doCall [OF step inv d] have d1: "doneTeamRepos s1 t" by simp
    with inv1 have "pgMutexInitializeLocalDataTeamRepos s1 t = Some Unlocked"
      by (simp add: pgInvariant_def)
    from pgInitializeLocalDataTeamRepos_done [OF this d1]
      pgInitializeLocalDataTeamRepos_returns_stored [OF r]
    show ?thesis by simp
  qed
  have own: "e = None \<and> pgInitializeLocalDataTeamRepos c t s1 = Returns (s1, None)"
    if "\<not> doneTeamRepos s t" and r: "pgInitializeLocalDataTeamRepos c' t s = Returns (s1, e)"
      and "doneTeamRepos s1 t"
  proof -
    from r have "e = None \<and> pgMutexInitializeLocalDataTeamRepos s1 t = Some Unlocked \<and>
      repos_err (pgGetAllTeamReposResponse s1) = None"
    proof (cases rule: pgInitializeLocalDataTeamRepos_cases)
      case already
      with that show ?thesis by simp
    next
      case (loaded n)
      then show ?thesis by simp
    next
      case (failed n)
      with that show ?thesis by (auto simp: doneTeamRepos_def)
    qed
    with that(3) show ?thesis
      by (simp add: pgInitializeLocalDataTeamRepos_done)
  qed
  have ownTeams: "e2 = None \<and> pgInitializeLocalDataTeams c s2 = Returns (s2, None)"
    if "\<not> pgDoneGetAllTeams s" and r: "pgInitializeLocalDataTeams c' s = Returns (s2, e2)"
      and "pgDoneGetAllTeams s2"
  proof -
    from r have "e2 = None \<and> pgMutexInitializeLocalDataTeams s2 = Unlocked \<and>
      teams_err (pgGetAllTeamsResponse s2) = None"
    proof (cases rule: pgInitializeLocalDataTeams_cases)
      case already
      with that show ?thesis by simp
    next
      case (loaded n)
      then show ?thesis by (simp add: registerTeams_eq)
    next
      case (failed n)
      with that show ?thesis by (simp add: registerTeams_eq)
    qed
    with that(3) show ?thesis
      by (simp add: pgInitializeLocalDataTeams_done)
  qed
  from teams repos other own ownTeams show ?thesis by blast
qed

theorem completed_load_is_not_repeated_witness:
  "doCalls [GetTeamByTeamSlug twoTeamsClient ''platform'',
            GetRepoByTeamIDAndRepoName twoTeamsClient 7 ''api''] pgInitialState =
     Returns reposLoadedState \<and>
   doCalls [GetRepoByTeamIDAndRepoName twoTeamsClient 8 ''web''] reposLoadedState =
     Returns team8FailedState \<and>
   pgDoneGetAllTeams reposLoadedState \<and>
   pgInitializeLocalDataTeams failingClient team8FailedState =
     Returns (team8FailedState, None) \<and>
   teamsFetches (pgFetchLog team8FailedState) =
     [FetchTeams ''propertyguru'' \<lparr>Page = 1, PerPage = 100\<rparr>] \<and>
   doneTeamRepos reposLoadedState 7 \<and>
   doneTeamRepos team8FailedState 7 \<and>
   pgReposByTeamIdAndRepoName team8FailedState 7 = Some [''api'' \<mapsto> repoApi] \<and>
   teamReposFetches 7 (pgFetchLog team8FailedState) =
     [FetchTeamRepos 1661612 7 \<lparr>Page = 1, PerPage = 100\<rparr>] \<and>
   pgInitializeLocalDataTeamRepos twoTeamsClient 8 reposLoadedState =
     Returns (team8FailedState, Some (OtherError ''repos: 502'')) \<and>
   pgInitializeLocalDataTeamRepos failingClient 7 team8FailedState =
     Returns (team8FailedState, Some (OtherError ''repos: 502'')) \<and>
   doCalls [GetTeamByTeamSlug twoTeamsClient ''platform''] pgInitialState =
     Returns teamsLoadedState \<and>
   \<not> doneTeamRepos teamsLoadedState 7 \<and>
   pgInitializeLocalDataTeamRepos twoTeamsClient 7 teamsLoadedState =
     Returns (reposLoadedState, None) \<and>
   pgInitializeLocalDataTeamRepos failingClient 7 reposLoadedState =
     Returns (reposLoadedState, None) \<and>
   doCalls [] pgInitialState = Returns pgInitialState \<and>
   \<not> pgDoneGetAllTeams pgInitialState \<and>
   pgInitializeLocalDataTeams twoTeamsClient pgInitialState =
     Returns (teamsLoadedState, None) \<and>
   pgDoneGetAllTeams teamsLoadedState \<and>
   pgInitializeLocalDataTeams failingClient teamsLoadedState =
     Returns (teamsLoadedState, None)"
  using completed_load_is_not_repeated
    [of "[GetTeamByTeamSlug twoTeamsClient ''platform'',
          GetRepoByTeamIDAndRepoName twoTeamsClient 7 ''api'']" reposLoadedState
      "[GetRepoByTeamIDAndRepoName twoTeamsClient 8 ''web'']" team8FailedState
      failingClient 7 twoTeamsClient 8 team8FailedState "Some (OtherError ''repos: 502'')"]
    completed_load_is_not_repeated
    [of "[GetTeamByTeamSlug twoTeamsClient ''platform'']" teamsLoadedState "[]"
      teamsLoadedState failingClient 7 twoTeamsClient 7 reposLoadedState None]
    completed_load_is_not_repeated
    [of "[]" pgInitialState "[]" pgInitialState failingClient 7 twoTeamsClient 7
      reposLoadedState None teamsLoadedState None]
  by (simp add: eval_defs stateAfter_def team8FailedState_def teamsFetches_def
      teamReposFetches_def upd_8_7)




text \<open>
  C9. Two callers load the repositories of two distinct registered teams at the same
  time, each from \<open>Lock\<close>, in a state where both teams' mutexes are free. In every state
  their interleaved steps can reach, neither caller waits in \<open>Lock\<close>, and each has a
  next step until it has finished: the one never waits for the other. Each load is
  guarded by its own team's mutex only: a call blocks exactly when that mutex is held,
  whatever the state of any other team's mutex. The steps are those of the function: a
  caller that runs alone ends with the state and the error the function returns.
\<close>

theorem callers_of_distinct_teams_never_wait:
  assumes "teamA \<noteq> teamB"
    and "pgMutexInitializeLocalDataTeamRepos s0 teamA = Some Unlocked"
    and "pgMutexInitializeLocalDataTeamRepos s0 teamB = Some Unlocked"
    and "(twoCallers cA teamA cB teamB)\<^sup>*\<^sup>* (AtLock, AtLock, s0) (pcA, pcB, s)"
  shows "\<not> waitsInLock teamA pcA s \<and> \<not> waitsInLock teamB pcB s
    \<and> (reposStep cA teamA pcA s = None) = isFinal pcA
    \<and> (reposStep cB teamB pcB s = None) = isFinal pcB
    \<and> (pgInitializeLocalDataTeamRepos cA teamA u = Blocks) =
        (pgMutexInitializeLocalDataTeamRepos u teamA = Some Locked)
    \<and> (pgInitializeLocalDataTeamRepos cA teamA u = Returns (u', e) \<longrightarrow>
        (oneCaller cA teamA)\<^sup>*\<^sup>* (AtLock, u) (Returned e, u'))"
proof -
  from twoCallers_invariant [OF assms]
  have "\<not> waitsInLock teamA pcA s" and "\<not> waitsInLock teamB pcB s"
    by (auto simp: waitsInLock_def)
  then show ?thesis
    by (simp add: reposStep_None pgInitializeLocalDataTeamRepos_Blocks oneCaller_agrees(1))
qed

theorem callers_of_distinct_teams_never_wait_witness:
  "(7::int64) \<noteq> 8 \<and>
   pgMutexInitializeLocalDataTeamRepos teamsLoadedState 7 = Some Unlocked \<and>
   pgMutexInitializeLocalDataTeamRepos teamsLoadedState 8 = Some Unlocked \<and>
   (twoCallers twoTeamsClient 7 noReposClient 8)\<^sup>*\<^sup>* (AtLock, AtLock, teamsLoadedState)
     (AtCheck, AtCheck,
      teamsLoadedState\<lparr>pgMutexInitializeLocalDataTeamRepos := [7 \<mapsto> Locked, 8 \<mapsto> Locked]\<rparr>) \<and>
   reposStep twoTeamsClient 7 AtCheck
     (teamsLoadedState\<lparr>pgMutexInitializeLocalDataTeamRepos := [7 \<mapsto> Locked, 8 \<mapsto> Locked]\<rparr>)
     = Some (AtFetch 1 Map.empty,
         teamsLoadedState\<lparr>pgMutexInitializeLocalDataTeamRepos := [7 \<mapsto> Locked, 8 \<mapsto> Locked]\<rparr>) \<and>
   reposStep noReposClient 8 AtCheck
     (teamsLoadedState\<lparr>pgMutexInitializeLocalDataTeamRepos := [7 \<mapsto> Locked, 8 \<mapsto> Locked]\<rparr>)
     \<noteq> None \<and>
   pgInitializeLocalDataTeamRepos twoTeamsClient 7 teamsLoadedState =
     Returns (reposLoadedState, None) \<and>
   (oneCaller twoTeamsClient 7)\<^sup>*\<^sup>* (AtLock, teamsLoadedState) (Returned None, reposLoadedState)"
proof -
  let ?s1 = "teamsLoadedState\<lparr>pgMutexInitializeLocalDataTeamRepos := [7 \<mapsto> Locked, 8 \<mapsto> Unlocked]\<rparr>"
  let ?s2 = "teamsLoadedState\<lparr>pgMutexInitializeLocalDataTeamRepos := [7 \<mapsto> Locked, 8 \<mapsto> Locked]\<rparr>"
  have h1: "(7::int64) \<noteq> 8" by simp
  have h2: "pgMutexInitializeLocalDataTeamRepos teamsLoadedState 7 = Some Unlocked"
    and h3: "pgMutexInitializeLocalDataTeamRepos teamsLoadedState 8 = Some Unlocked"
    by (simp_all add: teamsLoadedState_def)
  have a: "reposStep twoTeamsClient 7 AtLock teamsLoadedState = Some (AtCheck, ?s1)"
    by (simp add: reposStep_def lockTeamRepos_def teamsLoadedState_def upd_8_7)
  have b: "reposStep noReposClient 8 AtLock ?s1 = Some (AtCheck, ?s2)"
    by (simp add: reposStep_def lockTeamRepos_def teamsLoadedState_def)
  have "twoCallers twoTeamsClient 7 noReposClient 8 (AtLock, AtLock, teamsLoadedState)
      (AtCheck, AtLock, ?s1)"
    using a by (rule twoCallers.first)
  moreover have "twoCallers twoTeamsClient 7 noReposClient 8 (AtCheck, AtLock, ?s1)
      (AtCheck, AtCheck, ?s2)"
    using b by (rule twoCallers.second)
  ultimately have path: "(twoCallers twoTeamsClient 7 noReposClient 8)\<^sup>*\<^sup>*
      (AtLock, AtLock, teamsLoadedState) (AtCheck, AtCheck, ?s2)"
    by (meson rtranclp.rtrancl_into_rtrancl rtranclp.rtrancl_refl)
  have c: "reposStep twoTeamsClient 7 AtCheck ?s2 = Some (AtFetch 1 Map.empty, ?s2)"
    by (simp add: reposStep_def doneTeamRepos_def teamsLoadedState_def)
  have run: "pgInitializeLocalDataTeamRepos twoTeamsClient 7 teamsLoadedState =
      Returns (reposLoadedState, None)"
    by (simp add: eval_defs upd_8_7)
  from callers_of_distinct_teams_never_wait
    [OF h1 h2 h3 path, of teamsLoadedState reposLoadedState None]
    h1 h2 h3 path c run
  show ?thesis by simp
qed

text \<open>
  C10. The team lookups drop the error that the ensure-load call returns and look the key
  up in the index whatever happened. The teams loop registers the teams of a page before
  it requests the next page, so a load that fails on a later page \<open>n > 1\<close> leaves the
  indices as they were with the teams of the pages before \<open>n\<close> registered, and the flag
  unset. The caller whose lookup triggered that load gets, for any key, what the index
  then has under that key, together with the response and the non-nil error of page \<open>n\<close>:
  for the identifier or the slug of a team \<open>T\<close> of those pages, a non-nil team of those
  pages with that key, which is \<open>T\<close> itself when the keys of those pages are distinct.
\<close>

theorem failed_load_leaves_partial_index:
  assumes "pgMutexInitializeLocalDataTeams s = Unlocked" and "\<not> pgDoneGetAllTeams s"
    and "1 < n"
    and "\<forall>q. 1 \<le> q \<and> q < n \<longrightarrow>
           snd (snd (teamsPage c q)) = None \<and> 100 \<le> length (fst (teamsPage c q))"
    and "teamsPage c n = (ts, resp, Some err)"
    and "F = teamsOfPages c 1 (n - 1)"
    and "T \<in> set F"
  shows "\<exists>s'.
      pgInitializeLocalDataTeams c s = Returns (s', Some err) \<and>
      \<not> pgDoneGetAllTeams s' \<and>
      pgTeamsByTeamId s' = indexAll GetID (\<lambda>t. t) F (pgTeamsByTeamId s) \<and>
      pgTeamsByTeamSlug s' = indexAll GetSlug (\<lambda>t. t) F (pgTeamsByTeamSlug s) \<and>
      (\<forall>k. pgGetTeamByTeamId c k s = Returns (s', pgTeamsByTeamId s' k, resp, Some err)) \<and>
      (\<forall>g. pgGetTeamByTeamSlug c g s =
            Returns (s', pgTeamsByTeamSlug s' g, resp, Some err)) \<and>
      (\<exists>T1\<in>set F. GetID T1 = GetID T \<and> pgTeamsByTeamId s' (GetID T) = Some T1) \<and>
      (\<exists>T2\<in>set F. GetSlug T2 = GetSlug T \<and> pgTeamsByTeamSlug s' (GetSlug T) = Some T2) \<and>
      (distinct (map GetID F) \<longrightarrow>
         pgGetTeamByTeamId c (GetID T) s = Returns (s', Some T, resp, Some err)) \<and>
      (distinct (map GetSlug F) \<longrightarrow>
         pgGetTeamByTeamSlug c (GetSlug T) s = Returns (s', Some T, resp, Some err))"
proof -
  let ?s' = "(fold registerTeam F s)
       \<lparr>pgGetAllTeamsResponse := holdTeams (teamsPage c n),
        pgFetchLog := pgFetchLog s @ map teamsFetch [1..n],
        pgMutexInitializeLocalDataTeams := Locked\<rparr>"
  have cont: "\<forall>q. 1 \<le> q \<and> q < n \<longrightarrow> continuesTeams c q"
    using assms(4) by (simp add: continuesTeams_def)
  have n1: "1 \<le> n" using assms(3) by simp
  have err: "snd (snd (teamsPage c n)) \<noteq> None" using assms(5) by simp
  have run: "pgInitializeLocalDataTeams c s = Returns (?s', Some err)"
    using pgInitializeLocalDataTeams_fails [OF assms(1,2) n1 cont err] assms(5,6) by simp
  have flag: "\<not> pgDoneGetAllTeams ?s'"
    using assms(2) by (simp add: registerTeams_eq)
  have holder: "teams_err (pgGetAllTeamsResponse ?s') = Some err"
    "teams_resp (pgGetAllTeamsResponse ?s') = resp"
    using assms(5) by (simp_all add: holdTeams_def)
  have byId: "pgTeamsByTeamId ?s' = indexAll GetID (\<lambda>t. t) F (pgTeamsByTeamId s)"
    and bySlug: "pgTeamsByTeamSlug ?s' = indexAll GetSlug (\<lambda>t. t) F (pgTeamsByTeamSlug s)"
    by (simp_all add: registerTeams_eq)
  have l1: "pgGetTeamByTeamId c k s = Returns (?s', pgTeamsByTeamId ?s' k, resp, Some err)"
    for k
    unfolding pgGetTeamByTeamId_def run using holder
    by (cases "pgTeamsByTeamId ?s' k") (simp_all add: notFoundUnlessError_def)
  have l2: "pgGetTeamByTeamSlug c g s =
      Returns (?s', pgTeamsByTeamSlug ?s' g, resp, Some err)" for g
    unfolding pgGetTeamByTeamSlug_def run using holder
    by (cases "pgTeamsByTeamSlug ?s' g") (simp_all add: notFoundUnlessError_def)
  have m1: "\<exists>T1\<in>set F. GetID T1 = GetID T \<and> pgTeamsByTeamId ?s' (GetID T) = Some T1"
    unfolding byId using assms(7) by (rule indexAll_mem)
  have m2: "\<exists>T2\<in>set F. GetSlug T2 = GetSlug T \<and> pgTeamsByTeamSlug ?s' (GetSlug T) = Some T2"
    unfolding bySlug using assms(7) by (rule indexAll_mem)
  have d1: "pgGetTeamByTeamId c (GetID T) s = Returns (?s', Some T, resp, Some err)"
    if "distinct (map GetID F)"
    using l1 [of "GetID T"] indexAll_distinct [OF that assms(7), of "\<lambda>t. t" "pgTeamsByTeamId s"]
    unfolding byId by simp
  have d2: "pgGetTeamByTeamSlug c (GetSlug T) s = Returns (?s', Some T, resp, Some err)"
    if "distinct (map GetSlug F)"
    using l2 [of "GetSlug T"]
      indexAll_distinct [OF that assms(7), of "\<lambda>t. t" "pgTeamsByTeamSlug s"]
    unfolding bySlug by simp
  show ?thesis
    apply (rule exI [of _ ?s'])
    apply (intro conjI allI impI)
    apply (rule run)
    apply (rule flag)
    apply (rule byId)
    apply (rule bySlug)
    apply (rule l1)
    apply (rule l2)
    apply (rule m1)
    apply (rule m2)
    apply (erule d1)
    apply (erule d2)
    done
qed

theorem failed_load_leaves_partial_index_witness:
  "pgMutexInitializeLocalDataTeams pgInitialState = Unlocked \<and>
   \<not> pgDoneGetAllTeams pgInitialState \<and>
   snd (snd (teamsPage secondPageFailsClient 1)) = None \<and>
   length (fst (teamsPage secondPageFailsClient 1)) = 100 \<and>
   teamsPage secondPageFailsClient 2 =
     ([], Some (Response 2), Some (OtherError ''teams: 502'')) \<and>
   numberedTeams = teamsOfPages secondPageFailsClient 1 (2 - 1) \<and>
   \<lparr>ID = 100, Slug = ''t'', TeamAttributes = ''''\<rparr> \<in> set numberedTeams \<and>
   distinct (map GetID numberedTeams) \<and>
   distinct (map GetSlug numberedTeams) \<and>
   resultOf (pgInitializeLocalDataTeams secondPageFailsClient pgInitialState) =
     Some (Some (OtherError ''teams: 502'')) \<and>
   resultOf (pgGetTeamByTeamId secondPageFailsClient 100 pgInitialState) =
     Some (Some \<lparr>ID = 100, Slug = ''t'', TeamAttributes = ''''\<rparr>, Some (Response 2),
           Some (OtherError ''teams: 502'')) \<and>
   resultOf (pgGetTeamByTeamSlug secondPageFailsClient ''t'' pgInitialState) =
     Some (Some \<lparr>ID = 100, Slug = ''t'', TeamAttributes = ''''\<rparr>, Some (Response 2),
           Some (OtherError ''teams: 502''))"
proof -
  let ?T = "\<lparr>ID = 100, Slug = ''t'', TeamAttributes = ''''\<rparr> :: Team"
  let ?c = secondPageFailsClient
  let ?e = "OtherError ''teams: 502''"
  have h1: "pgMutexInitializeLocalDataTeams pgInitialState = Unlocked"
    and h2: "\<not> pgDoneGetAllTeams pgInitialState"
    by (simp_all add: pgInitialState_def)
  have p1: "snd (snd (teamsPage ?c 1)) = None"
    and len: "length (fst (teamsPage ?c 1)) = 100"
    and p2: "teamsPage ?c 2 = ([], Some (Response 2), Some ?e)"
    by (simp_all add: teamsPage_def secondPageFailsClient_def numberedTeams_def)
  have h4: "\<forall>q. 1 \<le> q \<and> q < (2::int) \<longrightarrow>
      snd (snd (teamsPage ?c q)) = None \<and> 100 \<le> length (fst (teamsPage ?c q))"
  proof (intro allI impI)
    fix q :: int assume "1 \<le> q \<and> q < 2"
    then have "q = 1" by linarith
    with p1 len show "snd (snd (teamsPage ?c q)) = None \<and>
      100 \<le> length (fst (teamsPage ?c q))" by simp
  qed
  have F: "numberedTeams = teamsOfPages ?c 1 (2 - 1)"
    by (simp add: teamsOfPages_def teamsPage_def secondPageFailsClient_def)
  have T: "?T \<in> set numberedTeams"
    unfolding numberedTeams_def by (simp add: image_iff)
  have ids: "distinct (map GetID numberedTeams)"
  proof -
    have "inj_on (\<lambda>i. of_nat (100 + i) :: int64) {0..<100}"
    proof (rule inj_onI)
      fix x y :: nat
      assume x: "x \<in> {0..<100}" and y: "y \<in> {0..<100}"
        and eq: "(of_nat (100 + x) :: int64) = of_nat (100 + y)"
      from eq have "take_bit 64 (100 + x) = take_bit 64 (100 + y)"
        unfolding word_of_nat_eq_iff by simp
      moreover have "100 + x < 2 ^ 64" "100 + y < 2 ^ 64" using x y by simp_all
      ultimately have "100 + x = 100 + y" by (simp only: take_bit_nat_eq_self)
      then show "x = y" by simp
    qed
    then show ?thesis
      by (simp add: numberedTeams_def GetID_def distinct_map comp_def inj_on_def)
  qed
  have slugs: "distinct (map GetSlug numberedTeams)"
    by (simp add: numberedTeams_def GetSlug_def distinct_map comp_def inj_on_def)
  have two: "(1::int) < 2" by simp
  from failed_load_leaves_partial_index [OF h1 h2 two h4 p2 F T] ids slugs
  obtain s' where
    "pgInitializeLocalDataTeams ?c pgInitialState = Returns (s', Some ?e)"
    "pgGetTeamByTeamId ?c (GetID ?T) pgInitialState =
       Returns (s', Some ?T, Some (Response 2), Some ?e)"
    "pgGetTeamByTeamSlug ?c (GetSlug ?T) pgInitialState =
       Returns (s', Some ?T, Some (Response 2), Some ?e)"
    by blast
  then have r: "resultOf (pgInitializeLocalDataTeams ?c pgInitialState) = Some (Some ?e)"
    "resultOf (pgGetTeamByTeamId ?c 100 pgInitialState) =
       Some (Some ?T, Some (Response 2), Some ?e)"
    "resultOf (pgGetTeamByTeamSlug ?c ''t'' pgInitialState) =
       Some (Some ?T, Some (Response 2), Some ?e)"
    by (simp_all add: resultOf_def GetID_def GetSlug_def)
  from h1 h2 p1 len p2 F T ids slugs r show ?thesis by blast
qed

end
